theory Spec2Isabelle
  imports Main "HOL-Library.Sublist" "HOL-Library.AList"
begin

section \<open>Regular expressions as backtracking matchers\<close>

text \<open>
  The program rewrites text with Python's \<^verbatim>\<open>re\<close> module. A pattern is embedded as the
  function its backtracking matcher computes: given the text that starts at the current
  position, a matcher returns every way the pattern can match there, in the order in which
  Python would try them, each as the matched text paired with the text that remains. The
  first element of the list is the match Python reports; the empty list means no match.
\<close>

type_synonym matcher = "string \<Rightarrow> (string \<times> string) list"

abbreviation LF :: char where "LF \<equiv> CHR 0x0A"

abbreviation CR :: char where "CR \<equiv> CHR 0x0D"

definition lit :: "string \<Rightarrow> matcher" where
  \<comment> \<open>a literal string\<close>
  "lit w s = (if prefix w s then [(w, drop (length w) s)] else [])"

definition alt :: "matcher \<Rightarrow> matcher \<Rightarrow> matcher" where
  \<comment> \<open>\<^verbatim>\<open>p|q\<close>: the left alternative is tried first\<close>
  "alt p q s = p s @ q s"

definition opt :: "matcher \<Rightarrow> matcher" where
  \<comment> \<open>greedy \<^verbatim>\<open>p?\<close>: first with p, then without\<close>
  "opt p s = p s @ [([], s)]"

definition seq :: "matcher \<Rightarrow> matcher \<Rightarrow> matcher" where
  \<comment> \<open>\<^verbatim>\<open>pq\<close>\<close>
  "seq p q s = [(a @ b, r'). (a, r) \<leftarrow> p s, (b, r') \<leftarrow> q r]"

definition rep_class :: "(char \<Rightarrow> bool) \<Rightarrow> nat \<Rightarrow> matcher" where
  \<comment> \<open>greedy \<^verbatim>\<open>[class]{n,}\<close> over a one-character class: the longest run first, then
      one character less at a time, down to n characters\<close>
  "rep_class P n s =
     map (\<lambda>k. (take k s, drop k s)) (rev [n ..< Suc (length (takeWhile P s))])"

definition bos :: "bool \<Rightarrow> matcher" where
  \<comment> \<open>\<^verbatim>\<open>\A\<close>: only at the start of the whole text\<close>
  "bos at_start s = (if at_start then [([], s)] else [])"

definition eos :: matcher where
  \<comment> \<open>\<^verbatim>\<open>\Z\<close>: only at the end of the whole text\<close>
  "eos s = (if s = [] then [([], s)] else [])"

definition dot :: "char \<Rightarrow> bool" where
  \<comment> \<open>\<^verbatim>\<open>.\<close> without the DOTALL flag: any character but the line feed\<close>
  "dot c = (c \<noteq> LF)"

definition eol :: matcher where
  \<comment> \<open>\<^verbatim>\<open>\r?\n\<close>\<close>
  "eol = seq (opt (lit [CR])) (lit [LF])"

text \<open>
  A compiled pattern with groups: whether the position is the start of the text, and the
  text from the position on, give the alternatives, each with group 0 (the whole match),
  the numbered groups, and the remaining text.
\<close>

type_synonym 'g regex = "bool \<Rightarrow> string \<Rightarrow> ((string \<times> 'g) \<times> string) list"

definition hashes :: "nat \<Rightarrow> string" where
  \<comment> \<open>a run of k \<^verbatim>\<open>#\<close>\<close>
  "hashes k = replicate k (CHR ''#'')"

text \<open>
  \<^verbatim>\<open>re_title_5 = re.compile(r"(\A|\r?\n)##### (.+)(\r?\n|\Z)")\<close>, and the same with four,
  three, two and one \<^verbatim>\<open>#\<close>: the number of \<^verbatim>\<open>#\<close> is the parameter k.
\<close>

definition re_title :: "nat \<Rightarrow> (string \<times> string \<times> string) regex" where
  "re_title k at_start s =
     [((g1 @ h @ g2 @ g3, (g1, g2, g3)), r3).
        (g1, r1) \<leftarrow> alt (bos at_start) eol s,
        (h, r1') \<leftarrow> lit (hashes k @ '' '') r1,
        (g2, r2) \<leftarrow> rep_class dot 1 r1',
        (g3, r3) \<leftarrow> alt eol eos r2]"

definition re_title_5 :: "(string \<times> string \<times> string) regex" where "re_title_5 = re_title 5"

definition re_title_4 :: "(string \<times> string \<times> string) regex" where "re_title_4 = re_title 4"

definition re_title_3 :: "(string \<times> string \<times> string) regex" where "re_title_3 = re_title 3"

definition re_title_2 :: "(string \<times> string \<times> string) regex" where "re_title_2 = re_title 2"

definition re_title_1 :: "(string \<times> string \<times> string) regex" where "re_title_1 = re_title 1"

text \<open>\<^verbatim>\<open>re_title_2_long = re.compile(r"(\A|\r?\n)(.+)\r?\n-{2,}(\r?\n|\Z)")\<close>\<close>

definition re_title_2_long :: "(string \<times> string \<times> string) regex" where
  "re_title_2_long at_start s =
     [((g1 @ g2 @ e @ u @ g3, (g1, g2, g3)), r3).
        (g1, r1) \<leftarrow> alt (bos at_start) eol s,
        (g2, r2) \<leftarrow> rep_class dot 1 r1,
        (e, r2') \<leftarrow> eol r2,
        (u, r2'') \<leftarrow> rep_class (\<lambda>c. c = CHR ''-'') 2 r2',
        (g3, r3) \<leftarrow> alt eol eos r2'']"

text \<open>\<^verbatim>\<open>re_title_1_long = re.compile(r"(\A|\r?\n)(.+)\r?\n(={2,})(\r?\n|\Z)")\<close>\<close>

definition re_title_1_long :: "(string \<times> string \<times> string \<times> string) regex" where
  "re_title_1_long at_start s =
     [((g1 @ g2 @ e @ g3 @ g4, (g1, g2, g3, g4)), r4).
        (g1, r1) \<leftarrow> alt (bos at_start) eol s,
        (g2, r2) \<leftarrow> rep_class dot 1 r1,
        (e, r2') \<leftarrow> eol r2,
        (g3, r3) \<leftarrow> rep_class (\<lambda>c. c = CHR ''='') 2 r2',
        (g4, r4) \<leftarrow> alt eol eos r3]"

subsection \<open>Substitution\<close>

text \<open>
  \<^verbatim>\<open>pattern.sub(repl, string, count)\<close> scans the text from left to right for the leftmost
  non-overlapping matches, at most \<^verbatim>\<open>count\<close> of them when \<^verbatim>\<open>count\<close> is not zero, and
  replaces each by what \<^verbatim>\<open>repl\<close> gives for it. The scan itself does not depend on the
  replacements, so it is modelled first: it cuts the text into the characters it copies
  and the matches it found. After a match the scan goes on where the match ended. None of
  the patterns of this program matches the empty string (each needs a literal character),
  so a match always moves the position; a matcher that did not is treated as no match.
\<close>

datatype 'g piece = Unmatched char | Matched string 'g

fun re_pieces :: "'g regex \<Rightarrow> nat option \<Rightarrow> bool \<Rightarrow> string \<Rightarrow> 'g piece list" where
  "re_pieces re limit at_start s =
     (if limit = Some 0 then map Unmatched s
      else case s of
        [] \<Rightarrow> []
      | c # cs \<Rightarrow>
          (case re at_start s of
             [] \<Rightarrow> Unmatched c # re_pieces re limit False cs
           | ((g0, g), r) # _ \<Rightarrow>
               if length r < length s
               then Matched g0 g # re_pieces re (map_option (\<lambda>n. n - 1) limit) False r
               else Unmatched c # re_pieces re limit False cs))"

definition replace_pieces :: "(string \<Rightarrow> 'g \<Rightarrow> string) \<Rightarrow> 'g piece list \<Rightarrow> string" where
  \<comment> \<open>the copied characters and, for each match, what \<open>repl\<close> gives for group 0 and the groups\<close>
  "replace_pieces repl ps =
     concat (map (\<lambda>p. case p of Unmatched c \<Rightarrow> [c] | Matched g0 g \<Rightarrow> repl g0 g) ps)"

definition re_sub :: "'g regex \<Rightarrow> (string \<Rightarrow> 'g \<Rightarrow> string) \<Rightarrow> nat \<Rightarrow> string \<Rightarrow> string" where
  "re_sub re repl count s =
     replace_pieces repl (re_pieces re (if count = 0 then None else Some count) True s)"

section \<open>Shifting the headers\<close>

definition repl_title :: "nat \<Rightarrow> string \<Rightarrow> string \<times> string \<times> string \<Rightarrow> string" where
  \<comment> \<open>the templates \<^verbatim>\<open>r"\1###### \2\3"\<close> to \<^verbatim>\<open>r"\1## \2\3"\<close>, with n the number of
      \<^verbatim>\<open>#\<close> written\<close>
  "repl_title n g0 g = (case g of (g1, g2, g3) \<Rightarrow> g1 @ hashes n @ '' '' @ g2 @ g3)"

definition repl_title_1_long :: "string \<Rightarrow> string \<times> string \<times> string \<times> string \<Rightarrow> string" where
  "repl_title_1_long g0 g =
     (case g of (g1, g2, g3, g4) \<Rightarrow> g1 @ g2 @ [LF] @ replicate (length g3) (CHR ''-'') @ g4)"

definition shift_markdown_headers :: "string \<Rightarrow> string" where
  "shift_markdown_headers markdown_source =
     (let markdown_source = re_sub re_title_5 (repl_title 6) 0 markdown_source;
          markdown_source = re_sub re_title_4 (repl_title 5) 0 markdown_source;
          markdown_source = re_sub re_title_3 (repl_title 4) 0 markdown_source;
          markdown_source = re_sub re_title_2 (repl_title 3) 0 markdown_source;
          markdown_source = re_sub re_title_1 (repl_title 2) 0 markdown_source;
          markdown_source = re_sub re_title_2_long (repl_title 3) 0 markdown_source;
          markdown_source = re_sub re_title_1_long repl_title_1_long 0 markdown_source
      in markdown_source)"

subsection \<open>Documents made of headers and paragraphs\<close>

text \<open>
  To state what the shift does to a whole document, a document is described as a list of
  blocks: an ATX header of some level with its title, or a paragraph of body text.
  Consecutive blocks are separated by a blank line; the text may start and may end with one
  more line break (the example of the docstring does both, a fragment read by
  \<^verbatim>\<open>get_content\<close> does neither). A header is well formed when its level is 1 to 6 and its
  title is a non-empty line. A paragraph is body text when none of its lines starts with
  \<^verbatim>\<open>#\<close>, \<^verbatim>\<open>--\<close> or \<^verbatim>\<open>==\<close>, that is, when no line break in it (nor the one before it) is
  followed by one of these; it may hold several lines and blank lines.
\<close>

datatype block = Header nat string | Body string

fun block_text :: "block \<Rightarrow> string" where
  "block_text (Header k h) = hashes k @ CHR '' '' # h"
| "block_text (Body t) = t"

fun join_blocks :: "block list \<Rightarrow> string" where
  "join_blocks [] = []"
| "join_blocks [x] = block_text x"
| "join_blocks (x # y # bs) = block_text x @ [LF, LF] @ join_blocks (y # bs)"

definition document :: "bool \<Rightarrow> bool \<Rightarrow> block list \<Rightarrow> string" where
  "document lead trail bs =
     (if lead then [LF] else []) @ join_blocks bs @ (if trail then [LF] else [])"

fun valid_block :: "block \<Rightarrow> bool" where
  "valid_block (Header k h) = (1 \<le> k \<and> k \<le> 6 \<and> h \<noteq> [] \<and> LF \<notin> set h)"
| "valid_block (Body t) =
     (\<not> sublist [LF, CHR ''#''] (LF # t) \<and>
      \<not> sublist [LF, CHR ''-'', CHR ''-''] (LF # t) \<and>
      \<not> sublist [LF, CHR ''='', CHR ''=''] (LF # t))"

fun demote :: "block \<Rightarrow> block" where
  \<comment> \<open>one level down, level 6 staying where it is\<close>
  "demote (Header k h) = Header (if k < 6 then k + 1 else k) h"
| "demote (Body t) = Body t"

subsection \<open>Documents with Setext headers\<close>

text \<open>
  For the Setext headers a document may also hold underlined lines: a title line, under it
  a line of n times the same character, \<^verbatim>\<open>=\<close> or \<^verbatim>\<open>-\<close>, and then the text that follows
  on the next line, if any. With two or more \<^verbatim>\<open>=\<close> this is a Setext header of level 1, with
  two or more \<^verbatim>\<open>-\<close> a Setext header of level 2, and with one character it is no header. The
  title is a non-empty line that does not start with \<^verbatim>\<open>#\<close>. What follows the underline is
  nothing, or a line break and then body text (\<open>text_after\<close>). The elements of a document,
  blocks as above and underlined lines, are separated by blank lines, and the text may
  start and may end with one more line break.
\<close>

datatype element = Plain block | Underlined string char nat string


fun element_text :: "element \<Rightarrow> string" where
  "element_text (Plain b) = block_text b"
| "element_text (Underlined t c n a) = t @ LF # replicate n c @ a"





section \<open>Downloading the images\<close>

text \<open>\<^verbatim>\<open>re_image = re.compile(r"!\[([^\]]+)\]\(([^\)]+)\)")\<close>\<close>

definition re_image :: "(string \<times> string) regex" where
  "re_image at_start s =
     [((a @ g1 @ b @ g2 @ c, (g1, g2)), r5).
        (a, r1) \<leftarrow> lit ''!['' s,
        (g1, r2) \<leftarrow> rep_class (\<lambda>c. c \<noteq> CHR '']'') 1 r1,
        (b, r3) \<leftarrow> lit ''](''  r2,
        (g2, r4) \<leftarrow> rep_class (\<lambda>c. c \<noteq> CHR '')'') 1 r3,
        (c, r5) \<leftarrow> lit '')'' r4]"

text \<open>
  What the function does to the world is kept as a trace, in the order of the source:
  the two messages it prints (with the values they are formatted with), the requests
  sent by \<^verbatim>\<open>requests.get\<close>, and the files written (directory, file name, content).
\<close>

datatype effect =
    Echo_downloading string string
      \<comment> \<open>\<^verbatim>\<open>click.echo\<close> of "Downloading and replacing image (alt) from (url)..."\<close>
  | Secho_unable
      \<comment> \<open>\<^verbatim>\<open>click.secho\<close> of "Unable to download image, skipping" to the error stream\<close>
  | Http_get string
  | File_write string string string

datatype error = AttributeError | RequestException | OSError

datatype response = Response (ok: bool) (content: string)

text \<open>
  The libraries and the world the function calls are parameters: \<^verbatim>\<open>requests.get\<close> (the
  response to a URL, or \<open>None\<close> when the call raises instead of returning a response),
  \<^verbatim>\<open>hashlib.sha256(...).hexdigest()\<close>, a call of the \<^verbatim>\<open>UniqueSlugify(to_lower=True)\<close>
  object (its result depends on the text and on the slugs the object has given out so
  far), and whether \<^verbatim>\<open>open(to / image_filename, "wb")\<close> succeeds. The network is taken
  to answer one URL the same way during one run.
\<close>

record env =
  requests_get :: "string \<Rightarrow> response option"
  sha256_hexdigest :: "string \<Rightarrow> string"
  unique_slugify :: "string list \<Rightarrow> string \<Rightarrow> string"
  open_wb :: "string \<Rightarrow> string \<Rightarrow> bool"

text \<open>
  The module-level dictionary \<^verbatim>\<open>downloaded_images\<close> (hash to file name, in insertion
  order) and the trace of effects make the state.
\<close>

record state =
  downloaded_images :: "(string \<times> string) list"
  effects :: "effect list"

definition init_state :: state where
  \<comment> \<open>at the start of the process: \<^verbatim>\<open>downloaded_images = {}\<close>\<close>
  "init_state = \<lparr>downloaded_images = [], effects = []\<rparr>"

definition emit :: "effect \<Rightarrow> state \<Rightarrow> state" where
  "emit e st = st\<lparr>effects := effects st @ [e]\<rparr>"

fun split_str :: "char \<Rightarrow> string \<Rightarrow> string list" where
  \<comment> \<open>\<^verbatim>\<open>s.split(sep)\<close> for a separator of one character\<close>
  "split_str sep [] = [[]]"
| "split_str sep (c # cs) =
     (if c = sep then [] # split_str sep cs
      else (case split_str sep cs of [] \<Rightarrow> [[c]] | x # xs \<Rightarrow> (c # x) # xs))"

text \<open>
  The callback \<^verbatim>\<open>repl_and_download_image(match)\<close>. It closes over \<^verbatim>\<open>to\<close> and over the
  \<^verbatim>\<open>slugify\<close> object of the enclosing call, whose state is the list \<open>uids\<close> of the slugs
  it has given out. \<^verbatim>\<open>click.echos\<close> is not an attribute of the \<^verbatim>\<open>click\<close> module, so
  evaluating it raises \<^verbatim>\<open>AttributeError\<close>.
\<close>

definition repl_and_download_image ::
  "env \<Rightarrow> string \<Rightarrow> string \<Rightarrow> string \<times> string \<Rightarrow> string list \<times> state
     \<Rightarrow> error + (string \<times> string list \<times> state)" where
  "repl_and_download_image ev to g0 g us =
     (case (g, us) of ((image_alt, image_url), (uids, st)) \<Rightarrow>
      (case (if \<not> prefix ''http://'' image_url \<and> \<not> prefix ''https://'' image_url
             then (if prefix ''/'' image_url
                   then Inr (''https://zestedesavoir.com'' @ image_url)
                   else Inl AttributeError)
             else Inr image_url) of
         Inl e \<Rightarrow> Inl e
       | Inr image_url \<Rightarrow>
          (let st = emit (Echo_downloading image_alt image_url) st;
               st = emit (Http_get image_url) st
           in case requests_get ev image_url of
             None \<Rightarrow> Inl RequestException
           | Some r \<Rightarrow>
               if \<not> ok r
               then Inr (g0, uids, emit Secho_unable st)
               else
                 (let image_hash = sha256_hexdigest ev (content r);
                      image_ext = ''.'' @ last (split_str (CHR ''.'') image_url)
                  in case map_of (downloaded_images st) image_hash of
                    Some image_filename \<Rightarrow>
                      Inr (''!['' @ image_alt @ ''](''  @ image_filename @ '')'', uids, st)
                  | None \<Rightarrow>
                      (let slug = unique_slugify ev uids image_alt;
                           image_filename = slug @ image_ext;
                           st = st\<lparr>downloaded_images :=
                                  AList.update image_hash image_filename (downloaded_images st)\<rparr>
                       in if open_wb ev to image_filename
                          then Inr (''!['' @ image_alt @ ''](''  @ image_filename @ '')'',
                                 uids @ [slug],
                                 emit (File_write to image_filename (content r)) st)
                          else Inl OSError)))))"

text \<open>
  \<^verbatim>\<open>re_image.sub(repl_and_download_image, markdown_source, re.MULTILINE)\<close>: the third
  positional argument of \<^verbatim>\<open>sub\<close> is \<^verbatim>\<open>count\<close>, and \<^verbatim>\<open>re.MULTILINE\<close> is the integer 8.
  The callback is called on the matches in the order of the text; an exception it raises
  ends the substitution. The result keeps one output text per piece.
\<close>

fun localize_pieces ::
  "env \<Rightarrow> string \<Rightarrow> (string \<times> string) piece list \<Rightarrow> string list \<times> state
     \<Rightarrow> error + (string list \<times> string list \<times> state)" where
  "localize_pieces ev to [] us = Inr ([], us)"
| "localize_pieces ev to (Unmatched c # ps) us =
     (case localize_pieces ev to ps us of
        Inl e \<Rightarrow> Inl e
      | Inr (outs, us') \<Rightarrow> Inr ([c] # outs, us'))"
| "localize_pieces ev to (Matched g0 g # ps) us =
     (case repl_and_download_image ev to g0 g us of
        Inl e \<Rightarrow> Inl e
      | Inr (out, us') \<Rightarrow>
          (case localize_pieces ev to ps us' of
             Inl e \<Rightarrow> Inl e
           | Inr (outs, us'') \<Rightarrow> Inr (out # outs, us'')))"

definition re_MULTILINE :: nat where
  "re_MULTILINE = 8"

definition image_pieces :: "string \<Rightarrow> (string \<times> string) piece list" where
  "image_pieces markdown_source =
     re_pieces re_image (if re_MULTILINE = 0 then None else Some re_MULTILINE) True markdown_source"

definition download_and_replace_markdown_images ::
  "env \<Rightarrow> string \<Rightarrow> string \<Rightarrow> state \<Rightarrow> error + (string \<times> state)" where
  \<comment> \<open>a fresh \<^verbatim>\<open>UniqueSlugify\<close> object for every call: no slug given out yet\<close>
  "download_and_replace_markdown_images ev markdown_source to st =
     (case localize_pieces ev to (image_pieces markdown_source) ([], st) of
        Inl e \<Rightarrow> Inl e
      | Inr (outs, uids, st') \<Rightarrow> Inr (concat outs, st'))"

text \<open>
  One conversion run passes its fragments (the introduction, the extracts, the conclusion)
  to \<^verbatim>\<open>download_and_replace_markdown_images\<close> one after the other, with the same
  directory. \<open>run_trace\<close> is that sequence of calls; for every fragment it keeps each piece
  of the text beside the text written for it.
\<close>

fun run_trace ::
  "env \<Rightarrow> string \<Rightarrow> string list \<Rightarrow> state
     \<Rightarrow> error + (((string \<times> string) piece \<times> string) list \<times> state)" where
  "run_trace ev to [] st = Inr ([], st)"
| "run_trace ev to (t # ts) st =
     (case localize_pieces ev to (image_pieces t) ([], st) of
        Inl e \<Rightarrow> Inl e
      | Inr (outs, uids, st') \<Rightarrow>
          (case run_trace ev to ts st' of
             Inl e \<Rightarrow> Inl e
           | Inr (tr, st'') \<Rightarrow> Inr (zip (image_pieces t) outs @ tr, st'')))"

fun run_fragments :: "env \<Rightarrow> string \<Rightarrow> string list \<Rightarrow> state \<Rightarrow> error + (string list \<times> state)" where
  "run_fragments ev to [] st = Inr ([], st)"
| "run_fragments ev to (t # ts) st =
     (case download_and_replace_markdown_images ev t to st of
        Inl e \<Rightarrow> Inl e
      | Inr (out, st') \<Rightarrow>
          (case run_fragments ev to ts st' of
             Inl e \<Rightarrow> Inl e
           | Inr (outs, st'') \<Rightarrow> Inr (out # outs, st'')))"


section \<open>Auxiliary notions of the proofs\<close>

text \<open>The match a pattern reports: the first alternative, when there is one.\<close>

definition first :: "'a list \<Rightarrow> 'a option" where
  "first xs = (case xs of [] \<Rightarrow> None | x # _ \<Rightarrow> Some x)"

text \<open>
  One pass of the header shift on a block: the pass for level k moves the headers of level k
  to level k + 1 and leaves every other block. What each pass needs of a block is weaker than
  \<open>valid_block\<close>.
\<close>

fun bump :: "nat \<Rightarrow> block \<Rightarrow> block" where
  "bump k (Header j h) = Header (if j = k then Suc k else j) h"
| "bump k (Body t) = Body t"

fun shiftable :: "block \<Rightarrow> bool" where
  "shiftable (Header j h) = (h \<noteq> [] \<and> LF \<notin> set h)"
| "shiftable (Body t) = (\<not> sublist [LF, CHR ''#''] (LF # t))"

fun no_underline :: "char \<Rightarrow> block \<Rightarrow> bool" where
  "no_underline c (Header j h) = (LF \<notin> set h)"
| "no_underline c (Body t) = (\<not> sublist [LF, c, c] (LF # t))"

text \<open>
  A block between two line breaks of its own, and the text of a list of such blocks: the
  document with a line break at both ends.
\<close>

fun render_block :: "block \<Rightarrow> string" where
  "render_block (Header k h) = LF # hashes k @ CHR '' '' # h @ [LF]"
| "render_block (Body t) = LF # t @ [LF]"

definition render :: "block list \<Rightarrow> string" where
  "render bs = concat (map render_block bs)"

text \<open>What a header pattern matches after its first group.\<close>

definition title_after :: "nat \<Rightarrow> string \<Rightarrow> string \<Rightarrow> ((string \<times> string \<times> string \<times> string) \<times> string) list" where
  "title_after k g1 r1 =
     [((g1 @ h @ g2 @ g3, (g1, g2, g3)), r3).
        (h, r1') \<leftarrow> lit (hashes k @ '' '') r1,
        (g2, r2) \<leftarrow> rep_class dot 1 r1',
        (g3, r3) \<leftarrow> alt eol eos r2]"


definition underlined_after ::
  "char \<Rightarrow> string \<Rightarrow> string \<Rightarrow> ((string \<times> string \<times> string \<times> string \<times> string) \<times> string) list" where
  "underlined_after c g1 r1 =
     [((g1 @ g2 @ e @ g3 @ g4, (g1, g2, g3, g4)), r4).
        (g2, r2) \<leftarrow> rep_class dot 1 r1,
        (e, r2') \<leftarrow> eol r2,
        (g3, r3) \<leftarrow> rep_class (\<lambda>x. x = c) 2 r2',
        (g4, r4) \<leftarrow> alt eol eos r3]"





definition render_element :: "element \<Rightarrow> string" where
  "render_element e = LF # element_text e @ [LF]"

definition render_elements :: "element list \<Rightarrow> string" where
  "render_elements es = concat (map render_element es)"


subsection \<open>Notions used to state the claims on the images\<close>

text \<open>
  The text of an image reference with a given alternative text and target; the URLs the
  callback can resolve (absolute ones, and the ones that start with a slash, which get the
  site in front) and the URL it then requests.
\<close>

definition image_ref :: "string \<Rightarrow> string \<Rightarrow> string" where
  "image_ref a u = ''!['' @ a @ ''](''  @ u @ '')''"

definition absolute_url :: "string \<Rightarrow> bool" where
  "absolute_url u = (prefix ''http://'' u \<or> prefix ''https://'' u)"

definition resolvable :: "string \<Rightarrow> bool" where
  "resolvable u = (absolute_url u \<or> prefix ''/'' u)"

definition fetch_url :: "string \<Rightarrow> string" where
  "fetch_url u = (if absolute_url u then u else ''https://zestedesavoir.com'' @ u)"

text \<open>A state with more effects at the end of its trace, and the same dictionary.\<close>

definition logged :: "effect list \<Rightarrow> state \<Rightarrow> state" where
  "logged es st = st\<lparr>effects := effects st @ es\<rparr>"

text \<open>The part of a text after the last occurrence of a character (all of it when there is none).\<close>

definition after_last :: "char \<Rightarrow> string \<Rightarrow> string" where
  "after_last c s = rev (takeWhile (\<lambda>x. x \<noteq> c) (rev s))"

text \<open>
  The files written whose content has a given digest, in the order of the trace.
\<close>

fun written_digest :: "env \<Rightarrow> string \<Rightarrow> effect \<Rightarrow> bool" where
  "written_digest ev d (File_write dir f bytes) = (sha256_hexdigest ev bytes = d)"
| "written_digest ev d _ = False"

definition writes_of :: "env \<Rightarrow> string \<Rightarrow> state \<Rightarrow> effect list" where
  "writes_of ev d st = filter (written_digest ev d) (effects st)"

text \<open>
  A world for the examples: the network is given, the digest of a content is the content
  itself, every file can be opened for writing; \<open>plain_slug\<close> is a slugifier that returns
  its text.
\<close>

definition world :: "(string \<Rightarrow> response option) \<Rightarrow> (string list \<Rightarrow> string \<Rightarrow> string) \<Rightarrow> env" where
  "world net slug =
     \<lparr>requests_get = net, sha256_hexdigest = (\<lambda>bytes. bytes), unique_slugify = slug,
      open_wb = (\<lambda>dir name. True)\<rparr>"

definition plain_slug :: "string list \<Rightarrow> string \<Rightarrow> string" where
  "plain_slug uids text = text"

text \<open>
  A directory without subdirectories: \<^verbatim>\<open>open(to / image_filename, "wb")\<close> succeeds for a
  plain file name and raises for a name with a slash, which names a file in a missing
  directory.
\<close>

definition flat_directory :: "string \<Rightarrow> string \<Rightarrow> bool" where
  "flat_directory dir name = (CHR ''/'' \<notin> set name)"

text \<open>
  The invariant of a run: a digest is in the dictionary exactly when one file has been
  written for it, under the name the dictionary gives; entries of the dictionary are never
  changed; and a reference whose request succeeded was rewritten to the name the dictionary
  holds for the digest of its content.
\<close>

definition registry_ok :: "env \<Rightarrow> string \<Rightarrow> state \<Rightarrow> bool" where
  "registry_ok ev to st =
     (\<forall>d. map_of (downloaded_images st) d = None \<and> writes_of ev d st = [] \<or>
          (\<exists>f bytes. map_of (downloaded_images st) d = Some f \<and> sha256_hexdigest ev bytes = d \<and>
                     writes_of ev d st = [File_write to f bytes]))"

definition registry_kept :: "state \<Rightarrow> state \<Rightarrow> bool" where
  "registry_kept st st1 =
     (\<forall>d f. map_of (downloaded_images st) d = Some f \<longrightarrow> map_of (downloaded_images st1) d = Some f)"

definition rewritten :: "env \<Rightarrow> state \<Rightarrow> (string \<times> string) piece \<times> string \<Rightarrow> bool" where
  "rewritten ev st1 po =
     (case po of
        (Unmatched c, out) \<Rightarrow> True
      | (Matched g0 (a, u), out) \<Rightarrow>
          (\<forall>c. requests_get ev (fetch_url u) = Some (Response True c) \<longrightarrow>
               (\<exists>f. out = image_ref a f \<and>
                    map_of (downloaded_images st1) (sha256_hexdigest ev c) = Some f)))"


section \<open>Lemmas on the matchers and the substitution\<close>

declare re_pieces.simps [simp del]

lemma re_pieces_Nil [simp]: "re_pieces re limit b [] = []"
  by (simp add: re_pieces.simps)

lemma re_pieces_stop [simp]: "re_pieces re (Some 0) b s = map Unmatched s"
  by (simp add: re_pieces.simps)

lemma re_pieces_nomatch:
  "limit \<noteq> Some 0 \<Longrightarrow> re b (c # cs) = [] \<Longrightarrow>
   re_pieces re limit b (c # cs) = Unmatched c # re_pieces re limit False cs"
  by (simp add: re_pieces.simps)

lemma re_pieces_match:
  "limit \<noteq> Some 0 \<Longrightarrow> re b s = ((g0, g), r) # ms \<Longrightarrow> length r < length s \<Longrightarrow>
   re_pieces re limit b s = Matched g0 g # re_pieces re (map_option (\<lambda>n. n - 1) limit) False r"
  by (cases s) (simp_all add: re_pieces.simps)

lemma in_lit [simp]: "(m, r) \<in> set (lit w s) \<longleftrightarrow> m = w \<and> s = w @ r"
  by (auto simp: lit_def prefix_def)

lemma in_opt [simp]: "x \<in> set (opt p s) \<longleftrightarrow> x \<in> set (p s) \<or> x = ([], s)"
  by (auto simp: opt_def)

lemma eol_LF [simp]: "eol (LF # r) = [([LF], r)]"
  by (simp add: eol_def seq_def opt_def lit_def)

lemma eol_CRLF [simp]: "eol (CR # LF # r) = [([CR, LF], r)]"
  by (simp add: eol_def seq_def opt_def lit_def)

lemma eol_Nil [simp]: "eol [] = []"
  by (simp add: eol_def seq_def opt_def lit_def)

lemma eol_CR_Nil [simp]: "eol [CR] = []"
  by (simp add: eol_def seq_def opt_def lit_def)

lemma eol_CR_other [simp]: "c \<noteq> LF \<Longrightarrow> eol (CR # c # r) = []"
  by (simp add: eol_def seq_def opt_def lit_def)

lemma eol_other [simp]: "c \<noteq> LF \<Longrightarrow> c \<noteq> CR \<Longrightarrow> eol (c # r) = []"
  by (simp add: eol_def seq_def opt_def lit_def)

lemma in_eol [simp]: "(m, r) \<in> set (eol s) \<longleftrightarrow> (m = [LF] \<or> m = [CR, LF]) \<and> s = m @ r"
proof (cases s)
  case Nil
  then show ?thesis by simp
next
  case (Cons c t)
  show ?thesis
  proof (cases "c = LF")
    case True
    with Cons show ?thesis by auto
  next
    case nlf: False
    show ?thesis
    proof (cases "c = CR")
      case False
      with nlf Cons show ?thesis by auto
    next
      case cr: True
      show ?thesis
      proof (cases t)
        case Nil
        with cr Cons show ?thesis by auto
      next
        case (Cons d u)
        with cr \<open>s = c # t\<close> show ?thesis by (cases "d = LF") auto
      qed
    qed
  qed
qed

lemma in_bos [simp]: "(m, r) \<in> set (bos b s) \<longleftrightarrow> b \<and> m = [] \<and> r = s"
  by (auto simp: bos_def)

lemma in_eos [simp]: "(m, r) \<in> set (eos s) \<longleftrightarrow> m = [] \<and> r = [] \<and> s = []"
  by (auto simp: eos_def)

lemma in_alt [simp]: "x \<in> set (alt p q s) \<longleftrightarrow> x \<in> set (p s) \<or> x \<in> set (q s)"
  by (auto simp: alt_def)

lemma in_rep_class:
  "(m, r) \<in> set (rep_class P n s) \<longleftrightarrow>
     s = m @ r \<and> n \<le> length m \<and> length m \<le> length (takeWhile P s)"
proof
  assume "(m, r) \<in> set (rep_class P n s)"
  then obtain k where k: "n \<le> k" "k \<le> length (takeWhile P s)" and m: "m = take k s" and r: "r = drop k s"
    by (auto simp: rep_class_def)
  have "length (takeWhile P s) \<le> length s" by (rule length_takeWhile_le)
  with k have "length m = k" by (simp add: m)
  with k m r show "s = m @ r \<and> n \<le> length m \<and> length m \<le> length (takeWhile P s)" by simp
next
  assume a: "s = m @ r \<and> n \<le> length m \<and> length m \<le> length (takeWhile P s)"
  then have "(m, r) = (take (length m) s, drop (length m) s)" by simp
  moreover have "length m \<in> set (rev [n ..< Suc (length (takeWhile P s))])" using a by auto
  ultimately show "(m, r) \<in> set (rep_class P n s)"
    unfolding rep_class_def set_map by (rule image_eqI)
qed

lemma rep_class_sound:
  assumes "(m, r) \<in> set (rep_class P n s)"
  shows "s = m @ r" and "n \<le> length m" and "\<forall>c\<in>set m. P c"
proof -
  from assms have s: "s = m @ r" and n: "n \<le> length m" and l: "length m \<le> length (takeWhile P s)"
    unfolding in_rep_class by blast+
  show "s = m @ r" by (rule s)
  show "n \<le> length m" by (rule n)
  have "prefix (takeWhile P s) s" by (rule takeWhile_is_prefix)
  moreover have "prefix m s" using s by simp
  ultimately have "prefix m (takeWhile P s)" using l
    by (metis prefix_length_prefix)
  then have "set m \<subseteq> set (takeWhile P s)" by (rule set_mono_prefix)
  then show "\<forall>c\<in>set m. P c" by (auto dest: set_takeWhileD)
qed

lemma first_simps [simp]: "first [] = None" "first (x # xs) = Some x"
  by (simp_all add: first_def)

lemma first_append: "first (xs @ ys) = (case first xs of None \<Rightarrow> first ys | Some x \<Rightarrow> Some x)"
  by (cases xs) simp_all

lemma first_None [simp]: "first xs = None \<longleftrightarrow> xs = []"
  by (cases xs) simp_all

lemma first_Some: "first xs = Some x \<longleftrightarrow> (\<exists>ys. xs = x # ys)"
  by (cases xs) auto

lemma re_pieces_first:
  "limit \<noteq> Some 0 \<Longrightarrow> first (re b s) = Some ((g0, g), r) \<Longrightarrow> length r < length s \<Longrightarrow>
   re_pieces re limit b s = Matched g0 g # re_pieces re (map_option (\<lambda>n. n - 1) limit) False r"
  using re_pieces_match[of limit re b s g0 g r] by (auto simp: first_Some)

lemma lit_same: "lit w (w @ r) = [(w, r)]"
  by (simp add: lit_def)

lemma rep_class_Cons:
  assumes "\<forall>x\<in>set m. P x" and "r = [] \<or> \<not> P (hd r)" and "n \<le> length m"
  shows "rep_class P n (m @ r) =
           (m, r) # map (\<lambda>k. (take k (m @ r), drop k (m @ r))) (rev [n ..< length m])"
proof -
  have "takeWhile P (m @ r) = m"
    using assms(1,2) by (cases r) (simp_all add: takeWhile_tail)
  then show ?thesis
    using assms(3) by (simp add: rep_class_def)
qed

text \<open>What a match of each pattern looks like.\<close>

lemma in_re_title:
  assumes "x \<in> set (re_title k b s)"
  obtains g1 g2 g3 r where
    "x = ((g1 @ (hashes k @ '' '') @ g2 @ g3, (g1, g2, g3)), r)"
    "s = g1 @ hashes k @ '' '' @ g2 @ g3 @ r"
    "g1 = [] \<and> b \<or> g1 = [LF] \<or> g1 = [CR, LF]"
    "g2 \<noteq> []" "LF \<notin> set g2"
    "g3 = [LF] \<or> g3 = [CR, LF] \<or> g3 = [] \<and> r = []"
proof -
  from assms obtain g1 r1 h r1' g2 r2 g3 r3 where
    x: "x = ((g1 @ h @ g2 @ g3, (g1, g2, g3)), r3)" and
    1: "(g1, r1) \<in> set (alt (bos b) eol s)" and
    2: "(h, r1') \<in> set (lit (hashes k @ '' '') r1)" and
    3: "(g2, r2) \<in> set (rep_class dot 1 r1')" and
    4: "(g3, r3) \<in> set (alt eol eos r2)"
    unfolding re_title_def by auto
  from 3 have g2: "r1' = g2 @ r2" "1 \<le> length g2" "\<forall>c\<in>set g2. dot c"
    by (rule rep_class_sound)+
  show ?thesis
  proof (rule that[of g1 g2 g3 r3])
    show "x = ((g1 @ (hashes k @ '' '') @ g2 @ g3, (g1, g2, g3)), r3)"
      using x 2 by simp
    show "s = g1 @ hashes k @ '' '' @ g2 @ g3 @ r3"
      using 1 2 g2(1) 4 by auto
    show "g1 = [] \<and> b \<or> g1 = [LF] \<or> g1 = [CR, LF]" using 1 by auto
    show "g2 \<noteq> []" using g2(2) by auto
    show "LF \<notin> set g2" using g2(3) by (auto simp: dot_def)
    show "g3 = [LF] \<or> g3 = [CR, LF] \<or> g3 = [] \<and> r3 = []" using 4 by auto
  qed
qed

lemma replace_pieces_simps [simp]:
  "replace_pieces repl [] = []"
  "replace_pieces repl (Unmatched c # ps) = c # replace_pieces repl ps"
  "replace_pieces repl (Matched g0 g # ps) = repl g0 g @ replace_pieces repl ps"
  "replace_pieces repl (ps @ qs) = replace_pieces repl ps @ replace_pieces repl qs"
  by (simp_all add: replace_pieces_def)

lemma replace_pieces_Unmatched [simp]: "replace_pieces repl (map Unmatched s) = s"
  by (induction s) simp_all

lemma hashes_simps [simp]: "hashes 0 = []" "hashes (Suc k) = CHR ''#'' # hashes k"
  by (simp_all add: hashes_def)

lemma hashes_inj: "hashes j @ CHR '' '' # x = hashes k @ CHR '' '' # y \<Longrightarrow> j = k"
proof (induction j arbitrary: k)
  case 0
  then show ?case by (cases k) simp_all
next
  case (Suc j)
  then show ?case by (cases k) auto
qed

lemma set_hashes: "set (hashes k) \<subseteq> {CHR ''#''}"
  by (auto simp: hashes_def)

text \<open>Where a header pattern can match at all.\<close>

lemma re_title_starts:
  assumes "re_title k b s \<noteq> []" and "1 \<le> k"
  shows "b \<and> prefix ''#'' s \<or> prefix [LF, CHR ''#''] s \<or> prefix [CR, LF, CHR ''#''] s"
proof -
  from assms(1) have "hd (re_title k b s) \<in> set (re_title k b s)" by (rule hd_in_set)
  then obtain g1 g2 g3 r where
    s: "s = g1 @ hashes k @ '' '' @ g2 @ g3 @ r" and
    g1: "g1 = [] \<and> b \<or> g1 = [LF] \<or> g1 = [CR, LF]"
    by (rule in_re_title)
  from assms(2) obtain k' where "k = Suc k'" by (cases k) auto
  with s g1 show ?thesis by auto
qed

lemma re_title_other_level:
  assumes "j \<noteq> k"
  shows "re_title k b (LF # hashes j @ CHR '' '' # t) = []"
proof (rule ccontr)
  assume "re_title k b (LF # hashes j @ CHR '' '' # t) \<noteq> []"
  then have "hd (re_title k b (LF # hashes j @ CHR '' '' # t))
      \<in> set (re_title k b (LF # hashes j @ CHR '' '' # t))" by (rule hd_in_set)
  then obtain g1 g2 g3 r where
    s: "LF # hashes j @ CHR '' '' # t = g1 @ hashes k @ '' '' @ g2 @ g3 @ r" and
    g1: "g1 = [] \<and> b \<or> g1 = [LF] \<or> g1 = [CR, LF]"
    by (rule in_re_title)
  from g1 s have "g1 = [LF]" by (cases k) auto
  with s have "hashes j @ CHR '' '' # t = hashes k @ CHR '' '' # (g2 @ g3 @ r)" by simp
  then have "j = k" by (rule hashes_inj)
  with assms show False by simp
qed

lemma lit_hashes: "lit (hashes k @ '' '') (hashes k @ CHR '' '' # r) = [(hashes k @ '' '', r)]"
  using lit_same[of "hashes k @ '' ''" r] by simp

lemma lit_hashes_LF: "lit (hashes k @ '' '') (LF # r) = []"
  by (cases k) (simp_all add: lit_def)

lemma re_title_match:
  assumes "h \<noteq> []" and "LF \<notin> set h"
  shows "first (re_title k b (LF # hashes k @ CHR '' '' # h @ LF # rest)) =
           Some ((LF # hashes k @ CHR '' '' # h @ [LF], ([LF], h, [LF])), rest)"
proof -
  have rc: "rep_class dot (Suc 0) (h @ LF # rest) =
              (h, LF # rest) # map (\<lambda>k. (take k (h @ LF # rest), drop k (h @ LF # rest))) (rev [Suc 0 ..< length h])"
    using assms by (intro rep_class_Cons) (auto simp: dot_def Suc_le_eq)
  show ?thesis
    by (simp add: re_title_def alt_def bos_def lit_hashes lit_hashes_LF rc first_append)
qed

lemma not_sublist_ConsD: "\<not> sublist w (c # s) \<Longrightarrow> \<not> prefix w (c # s) \<and> \<not> sublist w s"
  by (simp add: sublist_Cons_right)

lemma re_title_Nil_iff:
  assumes "1 \<le> k" "\<not> (b \<and> prefix ''#'' s)" "\<not> prefix [LF, CHR ''#''] s" "\<not> prefix [CR, LF, CHR ''#''] s"
  shows "re_title k b s = []"
  using re_title_starts[of k b s] assms by blast

lemma atx_skip:
  assumes k: "1 \<le> k"
  shows "\<not> sublist [LF, CHR ''#''] (q @ [LF]) \<Longrightarrow> \<not> prefix ''#'' rest \<Longrightarrow> \<not> (b \<and> prefix ''#'' q) \<Longrightarrow>
    re_pieces (re_title k) None b (q @ LF # rest) =
      map Unmatched (q @ [LF]) @ re_pieces (re_title k) None False rest"
proof (induction q arbitrary: b)
  case Nil
  have "re_title k b (LF # rest) = []"
    using k Nil.prems(2) by (intro re_title_Nil_iff) simp_all
  then show ?case by (simp add: re_pieces_nomatch)
next
  case (Cons c q)
  from Cons.prems(1) have here: "\<not> prefix [LF, CHR ''#''] (c # q @ [LF])"
    and tail: "\<not> sublist [LF, CHR ''#''] (q @ [LF])"
    using not_sublist_ConsD[of "[LF, CHR ''#'']" c "q @ [LF]"] by simp_all
  have a: "\<not> prefix [LF, CHR ''#''] (c # q @ LF # rest)"
    using here by (cases q) simp_all
  have b: "\<not> prefix [CR, LF, CHR ''#''] (c # q @ LF # rest)"
  proof (cases q)
    case Nil
    with Cons.prems(2) show ?thesis by simp
  next
    case (Cons d q')
    from tail have "\<not> prefix [LF, CHR ''#''] (d # q' @ [LF])"
      using not_sublist_ConsD[of "[LF, CHR ''#'']" d "q' @ [LF]"] Cons by simp
    then show ?thesis using Cons by (cases q') simp_all
  qed
  have "re_title k b (c # q @ LF # rest) = []"
    using k a b Cons.prems(3) by (intro re_title_Nil_iff) simp_all
  then have "re_pieces (re_title k) None b ((c # q) @ LF # rest) =
      Unmatched c # re_pieces (re_title k) None False (q @ LF # rest)"
    by (simp add: re_pieces_nomatch)
  also have "re_pieces (re_title k) None False (q @ LF # rest) =
      map Unmatched (q @ [LF]) @ re_pieces (re_title k) None False rest"
    using tail Cons.prems(2) by (intro Cons.IH) simp_all
  finally show ?case by simp
qed

lemma render_simps [simp]: "render [] = []" "render (x # bs) = render_block x @ render bs"
  by (simp_all add: render_def)

lemma render_starts: "c \<noteq> LF \<Longrightarrow> \<not> prefix [c] (render bs)"
proof (cases bs)
  case Nil
  then show ?thesis by simp
next
  case (Cons x bs')
  assume "c \<noteq> LF"
  with Cons show ?thesis by (cases x) simp_all
qed

lemma no_LF_no_sublist:
  "LF \<notin> set q \<Longrightarrow> w \<noteq> [] \<Longrightarrow> \<not> sublist (LF # w) (q @ [LF])"
proof (induction q)
  case Nil
  then show ?case by (cases w) (simp_all add: sublist_Cons_right)
next
  case (Cons d q)
  then show ?case by (simp add: sublist_Cons_right)
qed

lemma repl_title_apply [simp]:
  "repl_title n g0 (g1, g2, g3) = g1 @ hashes n @ CHR '' '' # g2 @ g3"
  by (simp add: repl_title_def)

lemma shiftable_bump [simp]: "shiftable (bump k x) = shiftable x"
  by (cases x) simp_all

lemma run_of_two:
  assumes "2 \<le> length u" and "\<forall>x\<in>set u. x = c"
  obtains u' where "u = c # c # u'"
proof -
  from assms(1) obtain a b u' where u: "u = a # b # u'"
    by (cases u; cases "tl u") auto
  with assms(2) have "a = c" "b = c" by auto
  with u that show ?thesis by blast
qed

lemma underline_sublist:
  assumes "s = g1 @ g2 @ e @ u @ t" and "e = [LF] \<or> e = [CR, LF]"
    and "2 \<le> length u" and "\<forall>x\<in>set u. x = c"
  shows "sublist [LF, c, c] s"
proof -
  from assms(3,4) obtain u' where u: "u = c # c # u'" by (rule run_of_two)
  from assms(2) show ?thesis
  proof
    assume "e = [LF]"
    with assms(1) u have "s = (g1 @ g2) @ [LF, c, c] @ (u' @ t)" by simp
    then show ?thesis unfolding sublist_def by blast
  next
    assume "e = [CR, LF]"
    with assms(1) u have "s = (g1 @ g2 @ [CR]) @ [LF, c, c] @ (u' @ t)" by simp
    then show ?thesis unfolding sublist_def by blast
  qed
qed

lemma re_title_2_long_sublist:
  assumes "x \<in> set (re_title_2_long b s)"
  shows "sublist [LF, CHR ''-'', CHR ''-''] s"
proof -
  from assms obtain g1 r1 g2 r2 e r2' u r2'' g3 r3 where
    1: "(g1, r1) \<in> set (alt (bos b) eol s)" and
    2: "(g2, r2) \<in> set (rep_class dot 1 r1)" and
    3: "(e, r2') \<in> set (eol r2)" and
    4: "(u, r2'') \<in> set (rep_class (\<lambda>c. c = CHR ''-'') 2 r2')"
    unfolding re_title_2_long_def by auto
  from 1 have "s = g1 @ r1" by auto
  moreover from 2 have "r1 = g2 @ r2" by (rule rep_class_sound)
  moreover from 3 have "r2 = e @ r2'" and e: "e = [LF] \<or> e = [CR, LF]" by simp_all
  moreover from 4 have "r2' = u @ r2''" and u: "2 \<le> length u" "\<forall>x\<in>set u. x = CHR ''-''"
    by (rule rep_class_sound)+
  ultimately have "s = g1 @ g2 @ e @ u @ r2''" by simp
  then show ?thesis using e u by (rule underline_sublist)
qed

lemma re_title_1_long_sublist:
  assumes "x \<in> set (re_title_1_long b s)"
  shows "sublist [LF, CHR ''='', CHR ''=''] s"
proof -
  from assms obtain g1 r1 g2 r2 e r2' u r2'' g3 r3 where
    1: "(g1, r1) \<in> set (alt (bos b) eol s)" and
    2: "(g2, r2) \<in> set (rep_class dot 1 r1)" and
    3: "(e, r2') \<in> set (eol r2)" and
    4: "(u, r2'') \<in> set (rep_class (\<lambda>c. c = CHR ''='') 2 r2')"
    unfolding re_title_1_long_def by auto
  from 1 have "s = g1 @ r1" by auto
  moreover from 2 have "r1 = g2 @ r2" by (rule rep_class_sound)
  moreover from 3 have "r2 = e @ r2'" and e: "e = [LF] \<or> e = [CR, LF]" by simp_all
  moreover from 4 have "r2' = u @ r2''" and u: "2 \<le> length u" "\<forall>x\<in>set u. x = CHR ''=''"
    by (rule rep_class_sound)+
  ultimately have "s = g1 @ g2 @ e @ u @ r2''" by simp
  then show ?thesis using e u by (rule underline_sublist)
qed

lemma re_pieces_none:
  assumes "\<And>t. suffix t s \<Longrightarrow> re False t = []" and "re b s = []"
  shows "re_pieces re limit b s = map Unmatched s"
  using assms
proof (induction s arbitrary: b)
  case Nil
  then show ?case by simp
next
  case (Cons c s)
  have "re_pieces re limit False s = map Unmatched s"
  proof (rule Cons.IH)
    fix t assume "suffix t s"
    then have "suffix t (c # s)" by (rule suffix_ConsI)
    then show "re False t = []" by (rule Cons.prems(1))
  next
    have "suffix s (c # s)" by (simp add: suffix_ConsI)
    then show "re False s = []" by (rule Cons.prems(1))
  qed
  then show ?case using Cons.prems(2) by (cases "limit = Some 0") (simp_all add: re_pieces_nomatch)
qed

lemma not_sublist_suffix: "\<not> sublist w s \<Longrightarrow> suffix t s \<Longrightarrow> \<not> sublist w t"
  using sublist_order.order.trans suffix_imp_sublist by blast

lemma re_title_2_long_id:
  assumes "\<not> sublist [LF, CHR ''-'', CHR ''-''] s"
  shows "re_sub re_title_2_long repl 0 s = s"
proof -
  have "re_title_2_long b t = []" if "suffix t s" for b t
  proof (rule ccontr)
    assume "re_title_2_long b t \<noteq> []"
    then have "hd (re_title_2_long b t) \<in> set (re_title_2_long b t)" by (rule hd_in_set)
    then have "sublist [LF, CHR ''-'', CHR ''-''] t" by (rule re_title_2_long_sublist)
    with assms that show False using not_sublist_suffix by blast
  qed
  then have "re_pieces re_title_2_long None True s = map Unmatched s"
    by (intro re_pieces_none) simp_all
  then show ?thesis by (simp add: re_sub_def)
qed

lemma re_title_1_long_id:
  assumes "\<not> sublist [LF, CHR ''='', CHR ''=''] s"
  shows "re_sub re_title_1_long repl 0 s = s"
proof -
  have "re_title_1_long b t = []" if "suffix t s" for b t
  proof (rule ccontr)
    assume "re_title_1_long b t \<noteq> []"
    then have "hd (re_title_1_long b t) \<in> set (re_title_1_long b t)" by (rule hd_in_set)
    then have "sublist [LF, CHR ''='', CHR ''=''] t" by (rule re_title_1_long_sublist)
    with assms that show False using not_sublist_suffix by blast
  qed
  then have "re_pieces re_title_1_long None True s = map Unmatched s"
    by (intro re_pieces_none) simp_all
  then show ?thesis by (simp add: re_sub_def)
qed

lemma re_title_id:
  assumes "1 \<le> k" and "\<not> prefix ''#'' s" and "\<not> sublist [LF, CHR ''#''] s"
  shows "re_sub (re_title k) repl 0 s = s"
proof -
  have inner: "re_title k False t = []" if "suffix t s" for t
  proof (rule re_title_Nil_iff[OF assms(1)])
    from assms(3) that have ns: "\<not> sublist [LF, CHR ''#''] t" by (rule not_sublist_suffix)
    show "\<not> (False \<and> prefix ''#'' t)" by simp
    show "\<not> prefix [LF, CHR ''#''] t" using ns by auto
    show "\<not> prefix [CR, LF, CHR ''#''] t"
    proof
      assume "prefix [CR, LF, CHR ''#''] t"
      then obtain t' where "t = [CR] @ [LF, CHR ''#''] @ t'" by (auto simp: prefix_def)
      then have "sublist [LF, CHR ''#''] t" unfolding sublist_def by blast
      with ns show False by simp
    qed
  qed
  have "re_title k True s = []"
  proof (rule re_title_Nil_iff[OF assms(1)])
    show "\<not> (True \<and> prefix ''#'' s)" using assms(2) by simp
    show "\<not> prefix [LF, CHR ''#''] s" using assms(3) by auto
    show "\<not> prefix [CR, LF, CHR ''#''] s"
    proof
      assume "prefix [CR, LF, CHR ''#''] s"
      then obtain t' where "s = [CR] @ [LF, CHR ''#''] @ t'" by (auto simp: prefix_def)
      then have "sublist [LF, CHR ''#''] s" unfolding sublist_def by blast
      with assms(3) show False by simp
    qed
  qed
  with inner have "re_pieces (re_title k) None True s = map Unmatched s"
    by (intro re_pieces_none) simp_all
  then show ?thesis by (simp add: re_sub_def)
qed

lemma underline_join:
  assumes c: "c \<noteq> LF"
  shows "\<not> sublist [LF, c, c] (q @ [LF]) \<Longrightarrow> \<not> sublist [LF, c, c] (LF # r) \<Longrightarrow>
    \<not> sublist [LF, c, c] (q @ LF # LF # r)"
proof (induction q)
  case Nil
  then show ?case using c by (simp add: sublist_Cons_right)
next
  case (Cons e q)
  from Cons.prems(1) have here: "\<not> prefix [LF, c, c] (e # q @ [LF])"
    and tail: "\<not> sublist [LF, c, c] (q @ [LF])"
    using not_sublist_ConsD[of "[LF, c, c]" e "q @ [LF]"] by simp_all
  have "\<not> prefix [LF, c, c] (e # q @ LF # LF # r)"
  proof (cases q)
    case Nil
    then show ?thesis using c by simp
  next
    case q: (Cons f q')
    show ?thesis
    proof (cases q')
      case Nil
      then show ?thesis using c q by simp
    next
      case (Cons g q'')
      then show ?thesis using here q by simp
    qed
  qed
  moreover have "\<not> sublist [LF, c, c] (q @ LF # LF # r)"
    using tail Cons.prems(2) by (rule Cons.IH)
  ultimately show ?case by (simp add: sublist_Cons_right)
qed

lemma no_underline_block:
  assumes "c \<noteq> LF" "c \<noteq> CHR ''#''" "c \<noteq> CHR '' ''" "no_underline c x"
  shows "\<not> sublist [LF, c, c] (render_block x)"
proof (cases x)
  case (Header j h)
  with assms(4) have "LF \<notin> set (hashes j @ CHR '' '' # h)"
    using set_hashes[of j] by auto
  then have "\<not> sublist (LF # [c, c]) ((hashes j @ CHR '' '' # h) @ [LF])"
    by (rule no_LF_no_sublist) simp
  moreover have "\<not> prefix [c, c] (hashes j @ CHR '' '' # h @ [LF])"
    using assms(2,3) by (cases j) simp_all
  ultimately show ?thesis using Header by (simp add: sublist_Cons_right)
next
  case (Body t)
  with assms(4) have "\<not> sublist [LF, c, c] (LF # t)" by simp
  then have "\<not> sublist ([LF, c] @ [c]) ((LF # t) @ [LF])"
    using assms(1) snoc_sublist_snoc[of "[LF, c]" c "LF # t" LF] by simp
  then show ?thesis using Body by simp
qed

lemma render_block_snoc: "\<exists>q. render_block x = q @ [LF]"
  by (cases x) auto

lemma render_cases: "render bs = [] \<or> (\<exists>r. render bs = LF # r)"
proof (cases bs)
  case Nil
  then show ?thesis by simp
next
  case (Cons x bs')
  then show ?thesis by (cases x) simp_all
qed

lemma no_underline_render:
  assumes "c \<noteq> LF" "c \<noteq> CHR ''#''" "c \<noteq> CHR '' ''"
  shows "list_all (no_underline c) bs \<Longrightarrow> \<not> sublist [LF, c, c] (render bs)"
proof (induction bs)
  case Nil
  then show ?case by simp
next
  case (Cons x bs)
  from Cons.prems have x: "\<not> sublist [LF, c, c] (render_block x)"
    using assms by (intro no_underline_block) simp_all
  from Cons have rest: "\<not> sublist [LF, c, c] (render bs)" by simp
  obtain q where q: "render_block x = q @ [LF]" using render_block_snoc by blast
  from render_cases[of bs] show ?case
  proof
    assume "render bs = []"
    with x show ?thesis by simp
  next
    assume "\<exists>r. render bs = LF # r"
    then obtain r where r: "render bs = LF # r" by blast
    have "\<not> sublist [LF, c, c] (q @ LF # LF # r)"
      using assms(1) x rest unfolding q r by (rule underline_join)
    then show ?thesis by (simp add: q r)
  qed
qed

lemma demote_bumps:
  assumes "valid_block x"
  shows "bump 1 (bump 2 (bump 3 (bump 4 (bump 5 x)))) = demote x"
proof (cases x)
  case (Body t)
  then show ?thesis by simp
next
  case (Header k h)
  with assms have "k = 1 \<or> k = 2 \<or> k = 3 \<or> k = 4 \<or> k = 5 \<or> k = 6" by auto
  then show ?thesis using Header by auto
qed

lemma valid_shiftable: "valid_block x \<Longrightarrow> shiftable x"
  by (cases x) simp_all

lemma valid_no_underline:
  "valid_block x \<Longrightarrow> no_underline (CHR ''-'') (demote x) \<and> no_underline (CHR ''='') (demote x)"
  by (cases x) simp_all

lemma list_all_shiftable_bump: "list_all shiftable bs \<Longrightarrow> list_all shiftable (map (bump k) bs)"
  by (simp add: list_all_iff)


lemma no_LF_not_sublist: "LF \<notin> set q \<Longrightarrow> \<not> sublist (LF # w) q"
  using set_mono_sublist by fastforce

lemma re_title_after:
  "re_title k b s = concat (map (\<lambda>(g1, r1). title_after k g1 r1) (alt (bos b) eol s))"
  by (simp add: re_title_def title_after_def)

lemma title_after_LF [simp]: "title_after k g1 (LF # x) = []"
  by (simp add: title_after_def lit_hashes_LF)

lemma title_after_group:
  "title_after k g1 x = map (\<lambda>((g0, (g, g2, g3)), r). ((g1 @ g0, (g1, g2, g3)), r)) (title_after k [] x)"
  by (simp add: title_after_def map_concat comp_def case_prod_unfold)

lemma re_title_LF: "re_title k b (LF # x) = title_after k [LF] x"
  by (simp add: re_title_after alt_def bos_def)

lemma re_title_True: "re_title k True x = title_after k [] x @ re_title k False x"
  by (simp add: re_title_after alt_def bos_def)

lemma re_title_progress:
  assumes "((g0, g), r) \<in> set (re_title k b s)"
  shows "length r < length s"
proof -
  from assms obtain g1 g2 g3 r' where
    "((g0, g), r) = ((g1 @ (hashes k @ '' '') @ g2 @ g3, (g1, g2, g3)), r')"
    "s = g1 @ hashes k @ '' '' @ g2 @ g3 @ r'"
    by (rule in_re_title)
  then show ?thesis by simp
qed

lemma re_pieces_start_irrelevant:
  assumes "re True s = re False s"
  shows "re_pieces re limit True s = re_pieces re limit False s"
  by (subst (1 2) re_pieces.simps) (simp only: assms)

lemma re_title_leading:
  "replace_pieces (repl_title n) (re_pieces (re_title k) None b (LF # x)) =
     LF # replace_pieces (repl_title n) (re_pieces (re_title k) None True x)"
proof (cases "title_after k [] x")
  case Nil
  then have "re_title k b (LF # x) = []"
    using title_after_group[of k "[LF]" x] by (simp add: re_title_LF)
  then have 1: "re_pieces (re_title k) None b (LF # x) = Unmatched LF # re_pieces (re_title k) None False x"
    by (simp add: re_pieces_nomatch)
  from Nil have "re_title k True x = re_title k False x" by (simp add: re_title_True)
  then have "re_pieces (re_title k) None True x = re_pieces (re_title k) None False x"
    by (rule re_pieces_start_irrelevant)
  with 1 show ?thesis by simp
next
  case (Cons m ms)
  obtain g0 g g2 g3 r where m: "m = ((g0, (g, g2, g3)), r)" by (cases m) auto
  have t: "re_title k True x = ((g0, (g, g2, g3)), r) # (ms @ re_title k False x)"
    using Cons m by (simp add: re_title_True)
  then have "((g0, (g, g2, g3)), r) \<in> set (re_title k True x)" by simp
  then have len: "length r < length x" by (rule re_title_progress)
  from m Cons have "m \<in> set (title_after k [] x)" by simp
  then have g: "g = []" unfolding m title_after_def by auto
  have 1: "re_pieces (re_title k) None True x =
      Matched g0 ([], g2, g3) # re_pieces (re_title k) (map_option (\<lambda>n. n - 1) None) False r"
    using t len unfolding g by (intro re_pieces_match) simp_all
  have "re_title k b (LF # x) = ((LF # g0, ([LF], g2, g3)), r) #
      map (\<lambda>((g0, (g, g2, g3)), r). (([LF] @ g0, ([LF], g2, g3)), r)) ms"
    using title_after_group[of k "[LF]" x] Cons m by (simp add: re_title_LF)
  then have 2: "re_pieces (re_title k) None b (LF # x) =
      Matched (LF # g0) ([LF], g2, g3) # re_pieces (re_title k) (map_option (\<lambda>n. n - 1) None) False r"
    using len by (intro re_pieces_match) simp_all
  show ?thesis by (simp add: 1 2)
qed

lemma render_block_text: "render_block x = LF # block_text x @ [LF]"
  by (cases x) simp_all

lemma join_blocks_Cons: "bs \<noteq> [] \<Longrightarrow> join_blocks (x # bs) = block_text x @ [LF, LF] @ join_blocks bs"
  by (cases bs) simp_all

lemma render_join: "bs \<noteq> [] \<Longrightarrow> render bs = LF # join_blocks bs @ [LF]"
proof (induction bs rule: list_nonempty_induct)
  case (single x)
  then show ?case by (simp add: render_block_text)
next
  case (cons x bs)
  then show ?case by (simp add: render_block_text join_blocks_Cons)
qed

lemma atx_none:
  assumes "1 \<le> k" and "\<not> (b \<and> prefix ''#'' s)" and "\<not> sublist [LF, CHR ''#''] s"
  shows "re_pieces (re_title k) limit b s = map Unmatched s"
proof -
  have nolf: "\<not> prefix [LF, CHR ''#''] t \<and> \<not> prefix [CR, LF, CHR ''#''] t" if "suffix t s" for t
  proof -
    from assms(3) that have ns: "\<not> sublist [LF, CHR ''#''] t" by (rule not_sublist_suffix)
    have "\<not> prefix [CR, LF, CHR ''#''] t"
    proof
      assume "prefix [CR, LF, CHR ''#''] t"
      then obtain t' where "t = [CR] @ [LF, CHR ''#''] @ t'" by (auto simp: prefix_def)
      then have "sublist [LF, CHR ''#''] t" unfolding sublist_def by blast
      with ns show False by simp
    qed
    moreover have "\<not> prefix [LF, CHR ''#''] t" using ns by auto
    ultimately show ?thesis by simp
  qed
  have "re_title k False t = []" if "suffix t s" for t
    using assms(1) nolf[OF that] by (intro re_title_Nil_iff) simp_all
  moreover have "re_title k b s = []"
    using assms(1,2) nolf[of s] by (intro re_title_Nil_iff) simp_all
  ultimately show ?thesis by (intro re_pieces_none) simp_all
qed

lemma re_title_match_end:
  assumes "h \<noteq> []" and "LF \<notin> set h"
  shows "first (re_title k b (LF # hashes k @ CHR '' '' # h)) =
           Some ((LF # hashes k @ CHR '' '' # h, ([LF], h, [])), [])"
proof -
  have "rep_class dot (Suc 0) (h @ []) =
      (h, []) # map (\<lambda>k. (take k (h @ []), drop k (h @ []))) (rev [Suc 0 ..< length h])"
    using assms by (intro rep_class_Cons) (auto simp: dot_def Suc_le_eq)
  then have rc: "rep_class dot (Suc 0) h =
      (h, []) # map (\<lambda>k. (take k h, drop k h)) (rev [Suc 0 ..< length h])"
    by simp
  show ?thesis
    using lit_hashes[of k h]
    by (simp add: re_title_def alt_def bos_def eos_def lit_hashes_LF rc first_append)
qed

lemma atx_pass_block:
  assumes k: "1 \<le> k" and x: "shiftable x" and rest: "\<not> prefix ''#'' rest"
  shows "replace_pieces (repl_title (Suc k)) (re_pieces (re_title k) None b (render_block x @ rest)) =
      render_block (bump k x) @
        replace_pieces (repl_title (Suc k)) (re_pieces (re_title k) None False rest)"
proof (cases x)
  case (Body t)
  with x have "\<not> sublist [LF, CHR ''#''] (LF # t)" by simp
  then have "\<not> sublist [LF, CHR ''#''] ((LF # t) @ [LF])"
    using snoc_sublist_snoc[of "[LF]" "CHR ''#''" "LF # t" LF] by simp
  then have "re_pieces (re_title k) None b ((LF # t) @ LF # rest) =
      map Unmatched ((LF # t) @ [LF]) @ re_pieces (re_title k) None False rest"
    using rest by (intro atx_skip[OF k]) simp_all
  then show ?thesis using Body by simp
next
  case (Header j h)
  with x have h: "h \<noteq> []" "LF \<notin> set h" by simp_all
  show ?thesis
  proof (cases "j = k")
    case True
    have "re_pieces (re_title k) None b (LF # hashes k @ CHR '' '' # h @ LF # rest) =
        Matched (LF # hashes k @ CHR '' '' # h @ [LF]) ([LF], h, [LF])
          # re_pieces (re_title k) (map_option (\<lambda>n. n - 1) None) False rest"
      using h by (intro re_pieces_first re_title_match) simp_all
    then show ?thesis using Header True by simp
  next
    case False
    have "re_title k b (LF # hashes j @ CHR '' '' # h @ LF # rest) = []"
      using False by (rule re_title_other_level)
    then have 1: "re_pieces (re_title k) None b (LF # hashes j @ CHR '' '' # h @ LF # rest) =
        Unmatched LF # re_pieces (re_title k) None False ((hashes j @ CHR '' '' # h) @ LF # rest)"
      by (simp add: re_pieces_nomatch)
    have "LF \<notin> set (hashes j @ CHR '' '' # h)"
      using h(2) set_hashes[of j] by auto
    then have "\<not> sublist [LF, CHR ''#''] ((hashes j @ CHR '' '' # h) @ [LF])"
      by (rule no_LF_no_sublist) simp
    then have 2: "re_pieces (re_title k) None False ((hashes j @ CHR '' '' # h) @ LF # rest) =
        map Unmatched ((hashes j @ CHR '' '' # h) @ [LF]) @ re_pieces (re_title k) None False rest"
      using rest by (intro atx_skip[OF k]) simp_all
    show ?thesis using Header False 1 2 by simp
  qed
qed

lemma atx_pass_render:
  assumes k: "1 \<le> k"
  shows "list_all shiftable bs \<Longrightarrow>
    replace_pieces (repl_title (Suc k)) (re_pieces (re_title k) None b (render bs)) =
      render (map (bump k) bs)"
proof (induction bs arbitrary: b)
  case Nil
  then show ?case by simp
next
  case (Cons x bs)
  have "\<not> prefix ''#'' (render bs)" by (rule render_starts) simp
  with k Cons.prems have "replace_pieces (repl_title (Suc k))
      (re_pieces (re_title k) None b (render_block x @ render bs)) =
    render_block (bump k x) @
      replace_pieces (repl_title (Suc k)) (re_pieces (re_title k) None False (render bs))"
    by (intro atx_pass_block) simp_all
  with Cons show ?case by simp
qed

lemma atx_pass_last_block:
  assumes k: "1 \<le> k" and x: "shiftable x"
  shows "replace_pieces (repl_title (Suc k)) (re_pieces (re_title k) None b (LF # block_text x)) =
      LF # block_text (bump k x)"
proof (cases x)
  case (Body t)
  with x have "\<not> sublist [LF, CHR ''#''] (LF # t)" by simp
  then have "re_pieces (re_title k) None b (LF # t) = map Unmatched (LF # t)"
    using k by (intro atx_none) simp_all
  then show ?thesis using Body by simp
next
  case (Header j h)
  with x have h: "h \<noteq> []" "LF \<notin> set h" by simp_all
  show ?thesis
  proof (cases "j = k")
    case True
    have "re_pieces (re_title k) None b (LF # hashes k @ CHR '' '' # h) =
        Matched (LF # hashes k @ CHR '' '' # h) ([LF], h, [])
          # re_pieces (re_title k) (map_option (\<lambda>n. n - 1) None) False []"
      using h by (intro re_pieces_first re_title_match_end) simp_all
    then show ?thesis using Header True by simp
  next
    case False
    have "re_title k b (LF # hashes j @ CHR '' '' # h @ []) = []"
      using False by (rule re_title_other_level)
    then have 1: "re_pieces (re_title k) None b (LF # hashes j @ CHR '' '' # h) =
        Unmatched LF # re_pieces (re_title k) None False (hashes j @ CHR '' '' # h)"
      by (simp add: re_pieces_nomatch)
    have "LF \<notin> set (hashes j @ CHR '' '' # h)"
      using h(2) set_hashes[of j] by auto
    then have "\<not> sublist (LF # ''#'') (hashes j @ CHR '' '' # h)"
      by (rule no_LF_not_sublist)
    then have 2: "re_pieces (re_title k) None False (hashes j @ CHR '' '' # h) =
        map Unmatched (hashes j @ CHR '' '' # h)"
      using k by (intro atx_none) simp_all
    show ?thesis using Header False 1 2 by simp
  qed
qed

lemma atx_pass_open:
  assumes k: "1 \<le> k"
  shows "bs \<noteq> [] \<Longrightarrow> list_all shiftable bs \<Longrightarrow>
    replace_pieces (repl_title (Suc k)) (re_pieces (re_title k) None b (LF # join_blocks bs)) =
      LF # join_blocks (map (bump k) bs)"
proof (induction bs arbitrary: b rule: list_nonempty_induct)
  case (single x)
  then show ?case using atx_pass_last_block[OF k, of x b] by simp
next
  case (cons x bs)
  have "replace_pieces (repl_title (Suc k))
      (re_pieces (re_title k) None b (render_block x @ LF # join_blocks bs)) =
    render_block (bump k x) @
      replace_pieces (repl_title (Suc k)) (re_pieces (re_title k) None False (LF # join_blocks bs))"
    using k cons.prems by (intro atx_pass_block) simp_all
  also have "replace_pieces (repl_title (Suc k)) (re_pieces (re_title k) None False (LF # join_blocks bs)) =
      LF # join_blocks (map (bump k) bs)"
    using cons.prems by (intro cons.IH) simp
  finally show ?case
    using cons.hyps by (simp add: render_block_text join_blocks_Cons)
qed

lemma atx_pass_document:
  assumes "1 \<le> k" and "bs \<noteq> []" and "list_all shiftable bs"
  shows "re_sub (re_title k) (repl_title (Suc k)) 0 (document lead trail bs) =
           document lead trail (map (bump k) bs)"
proof -
  let ?sub = "\<lambda>b s. replace_pieces (repl_title (Suc k)) (re_pieces (re_title k) None b s)"
  have closed: "?sub b (LF # join_blocks bs @ [LF]) = LF # join_blocks (map (bump k) bs) @ [LF]" for b
    using atx_pass_render[OF assms(1,3), of b] assms(2) by (simp add: render_join)
  have "open": "?sub b (LF # join_blocks bs) = LF # join_blocks (map (bump k) bs)" for b
    using assms by (rule atx_pass_open)
  have lead: "?sub True x = y" if "?sub True (LF # x) = LF # y" for x y
    using that re_title_leading[of "Suc k" k True x] by simp
  show ?thesis
  proof (cases lead; cases trail)
    assume "lead" "trail"
    then show ?thesis using closed[of True] by (simp add: re_sub_def document_def)
  next
    assume "lead" "\<not> trail"
    then show ?thesis using "open"[of True] by (simp add: re_sub_def document_def)
  next
    assume "\<not> lead" "trail"
    then show ?thesis using lead[OF closed[of True]] by (simp add: re_sub_def document_def)
  next
    assume "\<not> lead" "\<not> trail"
    then show ?thesis using lead[OF "open"[of True]] by (simp add: re_sub_def document_def)
  qed
qed

lemma document_sublist:
  assumes "bs \<noteq> []"
  shows "sublist (document lead trail bs) (render bs)"
proof -
  have r: "render bs = LF # join_blocks bs @ [LF]" using assms by (rule render_join)
  show ?thesis
  proof (cases lead; cases trail)
    assume "lead" "trail"
    then show ?thesis by (simp add: document_def r)
  next
    assume "lead" "\<not> trail"
    then have "render bs = [] @ document lead trail bs @ [LF]" by (simp add: document_def r)
    then show ?thesis unfolding sublist_def by blast
  next
    assume "\<not> lead" "trail"
    then have "render bs = [LF] @ document lead trail bs @ []" by (simp add: document_def r)
    then show ?thesis unfolding sublist_def by blast
  next
    assume "\<not> lead" "\<not> trail"
    then have "render bs = [LF] @ document lead trail bs @ [LF]" by (simp add: document_def r)
    then show ?thesis unfolding sublist_def by blast
  qed
qed


text \<open>A match of a Setext pattern moves the position, as a match of a header pattern does.\<close>

lemma re_title_2_long_progress:
  assumes "((g0, g), r) \<in> set (re_title_2_long b s)"
  shows "length r < length s"
proof -
  from assms obtain g1 r1 g2 r2 e r2' u r2'' g3 where
    1: "(g1, r1) \<in> set (alt (bos b) eol s)" and
    2: "(g2, r2) \<in> set (rep_class dot 1 r1)" and
    3: "(e, r2') \<in> set (eol r2)" and
    4: "(u, r2'') \<in> set (rep_class (\<lambda>c. c = CHR ''-'') 2 r2')" and
    5: "(g3, r) \<in> set (alt eol eos r2'')"
    unfolding re_title_2_long_def by auto
  from 1 have "length r1 \<le> length s" by auto
  moreover from 2 have "r1 = g2 @ r2" "1 \<le> length g2" by (rule rep_class_sound)+
  moreover from 3 have "length r2' \<le> length r2" by auto
  moreover from 4 have "r2' = u @ r2''" by (rule rep_class_sound)
  moreover from 5 have "length r \<le> length r2''" by auto
  ultimately show ?thesis by simp
qed

lemma re_title_1_long_progress:
  assumes "((g0, g), r) \<in> set (re_title_1_long b s)"
  shows "length r < length s"
proof -
  from assms obtain g1 r1 g2 r2 e r2' u r2'' g3 where
    1: "(g1, r1) \<in> set (alt (bos b) eol s)" and
    2: "(g2, r2) \<in> set (rep_class dot 1 r1)" and
    3: "(e, r2') \<in> set (eol r2)" and
    4: "(u, r2'') \<in> set (rep_class (\<lambda>c. c = CHR ''='') 2 r2')" and
    5: "(g3, r) \<in> set (alt eol eos r2'')"
    unfolding re_title_1_long_def by auto
  from 1 have "length r1 \<le> length s" by auto
  moreover from 2 have "r1 = g2 @ r2" "1 \<le> length g2" by (rule rep_class_sound)+
  moreover from 3 have "length r2' \<le> length r2" by auto
  moreover from 4 have "r2' = u @ r2''" by (rule rep_class_sound)
  moreover from 5 have "length r \<le> length r2''" by auto
  ultimately show ?thesis by simp
qed

text \<open>The Setext patterns on a document of elements.\<close>

lemma split_first:
  "c \<notin> set a \<Longrightarrow> c \<notin> set g \<Longrightarrow> a @ c # x = g @ c # y \<Longrightarrow> a = g \<and> x = y"
proof (induction a arbitrary: g)
  case Nil
  then show ?case by (cases g) auto
next
  case (Cons d a)
  then show ?case by (cases g) auto
qed























lemma replace_pieces_replicate [simp]:
  "replace_pieces repl (replicate n (Unmatched c)) = replicate n c"
  by (induction n) simp_all

lemma render_elements_simps [simp]:
  "render_elements [] = []" "render_elements (x # es) = render_element x @ render_elements es"
  by (simp_all add: render_elements_def)












lemma underlined_after_LF [simp]: "underlined_after c g1 (LF # x) = []"
  by (simp add: underlined_after_def rep_class_def dot_def)



















section \<open>The claims on the header shift\<close>

text \<open>
  Claim C1. The claim: in a fragment with several headers, also on adjacent lines, every
  header is shifted. Each pattern consumes the line break that ends its header, and needs a
  line break (or the start of the text) before the next one: of two headers of the same
  level on adjacent lines, the second is not shifted. The function evaluated on such a
  fragment:
\<close>

theorem adjacent_headers_second_not_shifted:
  "shift_markdown_headers ''## A\<newline>## B\<newline>'' = ''### A\<newline>## B\<newline>''"
  by code_simp

text \<open>
  Claim C6. A document of well-formed ATX headers of levels 1 to 6 and paragraphs of body
  text, the blocks separated by blank lines, with or without a line break at its start and
  at its end, is shifted block by block: every header of a level below 6 goes down exactly
  one level, a header of level 6 stays, and the paragraphs, the titles and the line breaks
  are unchanged. Levels 1, 2, 5 and 6 so become 2, 3, 6 and 6.
\<close>

theorem shift_markdown_headers_document:
  assumes "bs \<noteq> []" and "list_all valid_block bs"
  shows "shift_markdown_headers (document lead trail bs) = document lead trail (map demote bs)"
proof -
  from assms(2) have s0: "list_all shiftable bs"
    by (simp add: list_all_iff valid_shiftable)
  define b5 where "b5 = map (bump 5) bs"
  define b4 where "b4 = map (bump 4) b5"
  define b3 where "b3 = map (bump 3) b4"
  define b2 where "b2 = map (bump 2) b3"
  define b1 where "b1 = map (bump 1) b2"
  have s5: "list_all shiftable b5" unfolding b5_def using s0 by (rule list_all_shiftable_bump)
  have s4: "list_all shiftable b4" unfolding b4_def using s5 by (rule list_all_shiftable_bump)
  have s3: "list_all shiftable b3" unfolding b3_def using s4 by (rule list_all_shiftable_bump)
  have s2: "list_all shiftable b2" unfolding b2_def using s3 by (rule list_all_shiftable_bump)
  have n5: "b5 \<noteq> []" using assms(1) by (simp add: b5_def)
  have n4: "b4 \<noteq> []" using n5 by (simp add: b4_def)
  have n3: "b3 \<noteq> []" using n4 by (simp add: b3_def)
  have n2: "b2 \<noteq> []" using n3 by (simp add: b2_def)
  have n1: "b1 \<noteq> []" using n2 by (simp add: b1_def)
  have p5: "re_sub re_title_5 (repl_title 6) 0 (document lead trail bs) = document lead trail b5"
    using atx_pass_document[of 5 bs lead trail] s0 assms(1) by (simp add: re_title_5_def b5_def)
  have p4: "re_sub re_title_4 (repl_title 5) 0 (document lead trail b5) = document lead trail b4"
    using atx_pass_document[of 4 b5 lead trail] s5 n5 by (simp add: re_title_4_def b4_def)
  have p3: "re_sub re_title_3 (repl_title 4) 0 (document lead trail b4) = document lead trail b3"
    using atx_pass_document[of 3 b4 lead trail] s4 n4 by (simp add: re_title_3_def b3_def)
  have p2: "re_sub re_title_2 (repl_title 3) 0 (document lead trail b3) = document lead trail b2"
    using atx_pass_document[of 2 b3 lead trail] s3 n3 by (simp add: re_title_2_def b2_def)
  have p1: "re_sub re_title_1 (repl_title 2) 0 (document lead trail b2) = document lead trail b1"
    using atx_pass_document[of 1 b2 lead trail] s2 n2
    by (simp add: re_title_1_def b1_def numeral_2_eq_2)
  have b1: "b1 = map demote bs"
    unfolding b1_def b2_def b3_def b4_def b5_def using assms(2)
    by (simp add: list_all_iff demote_bumps[simplified])
  have "list_all (no_underline (CHR ''-'')) b1" and "list_all (no_underline (CHR ''='')) b1"
    unfolding b1 using assms(2) by (simp_all add: list_all_iff valid_no_underline)
  then have "\<not> sublist [LF, CHR ''-'', CHR ''-''] (render b1)"
    and "\<not> sublist [LF, CHR ''='', CHR ''=''] (render b1)"
    by (intro no_underline_render; simp)+
  moreover have "sublist (document lead trail b1) (render b1)"
    using n1 by (rule document_sublist)
  ultimately have nd: "\<not> sublist [LF, CHR ''-'', CHR ''-''] (document lead trail b1)"
    and ne: "\<not> sublist [LF, CHR ''='', CHR ''=''] (document lead trail b1)"
    using sublist_order.order.trans by blast+
  have p2l: "re_sub re_title_2_long (repl_title 3) 0 (document lead trail b1) = document lead trail b1"
    using nd by (rule re_title_2_long_id)
  have p1l: "re_sub re_title_1_long repl_title_1_long 0 (document lead trail b1) = document lead trail b1"
    using ne by (rule re_title_1_long_id)
  show ?thesis
    unfolding shift_markdown_headers_def Let_def p5 p4 p3 p2 p1 p2l p1l by (simp only: b1)
qed

theorem shift_markdown_headers_document_witness:
  "list_all valid_block
     [Header 1 ''Header 1'', Body ''Lorem ipsum'', Header 2 ''Header 2'', Body ''Lorem ipsum'',
      Body ''Dolor sit'', Header 5 ''Header 5'', Header 6 ''Header 6''] \<and>
   shift_markdown_headers
     ''\<newline># Header 1\<newline>\<newline>Lorem ipsum\<newline>\<newline>## Header 2\<newline>\<newline>Lorem ipsum\<newline>\<newline>Dolor sit\<newline>\<newline>##### Header 5\<newline>\<newline>###### Header 6\<newline>'' =
     ''\<newline>## Header 1\<newline>\<newline>Lorem ipsum\<newline>\<newline>### Header 2\<newline>\<newline>Lorem ipsum\<newline>\<newline>Dolor sit\<newline>\<newline>###### Header 5\<newline>\<newline>###### Header 6\<newline>'' \<and>
   list_all valid_block [Header 1 ''Part'', Body ''Some text,\<newline>on two lines.'', Header 4 ''Detail''] \<and>
   shift_markdown_headers ''# Part\<newline>\<newline>Some text,\<newline>on two lines.\<newline>\<newline>#### Detail'' =
     ''## Part\<newline>\<newline>Some text,\<newline>on two lines.\<newline>\<newline>##### Detail''"
proof -
  let ?doc = "[Header 1 ''Header 1'', Body ''Lorem ipsum'', Header 2 ''Header 2'', Body ''Lorem ipsum'',
      Body ''Dolor sit'', Header 5 ''Header 5'', Header 6 ''Header 6'']"
  let ?frag = "[Header 1 ''Part'', Body ''Some text,\<newline>on two lines.'', Header 4 ''Detail'']"
  have v: "list_all valid_block ?doc" by code_simp
  have r: "document True True ?doc = ''\<newline># Header 1\<newline>\<newline>Lorem ipsum\<newline>\<newline>## Header 2\<newline>\<newline>Lorem ipsum\<newline>\<newline>Dolor sit\<newline>\<newline>##### Header 5\<newline>\<newline>###### Header 6\<newline>''"
    by code_simp
  have r': "document True True (map demote ?doc) = ''\<newline>## Header 1\<newline>\<newline>Lorem ipsum\<newline>\<newline>### Header 2\<newline>\<newline>Lorem ipsum\<newline>\<newline>Dolor sit\<newline>\<newline>###### Header 5\<newline>\<newline>###### Header 6\<newline>''"
    by code_simp
  have v2: "list_all valid_block ?frag" by code_simp
  have r2: "document False False ?frag = ''# Part\<newline>\<newline>Some text,\<newline>on two lines.\<newline>\<newline>#### Detail''"
    by code_simp
  have r2': "document False False (map demote ?frag) = ''## Part\<newline>\<newline>Some text,\<newline>on two lines.\<newline>\<newline>##### Detail''"
    by code_simp
  from shift_markdown_headers_document[OF _ v, of True True]
    shift_markdown_headers_document[OF _ v2, of False False] v v2
  show ?thesis unfolding r r' r2 r2' by simp
qed



text \<open>
  Claim C9. The shift is not idempotent: on a text with a level-1 ATX header the second
  application demotes the header again.
\<close>

theorem shift_not_idempotent:
  "\<exists>text. shift_markdown_headers (shift_markdown_headers text) \<noteq> shift_markdown_headers text"
proof
  show "shift_markdown_headers (shift_markdown_headers ''# Head'') \<noteq> shift_markdown_headers ''# Head''"
    by code_simp
qed


section \<open>Lemmas on the image pattern and the callback\<close>

lemma in_re_image:
  assumes "x \<in> set (re_image b s)"
  obtains g1 g2 r where
    "x = ((image_ref g1 g2, (g1, g2)), r)" "s = image_ref g1 g2 @ r"
    "g1 \<noteq> []" "CHR '']'' \<notin> set g1" "g2 \<noteq> []" "CHR '')'' \<notin> set g2"
proof -
  from assms obtain a r1 g1 r2 c r3 g2 r4 d r5 where
    x: "x = ((a @ g1 @ c @ g2 @ d, (g1, g2)), r5)" and
    1: "(a, r1) \<in> set (lit ''!['' s)" and
    2: "(g1, r2) \<in> set (rep_class (\<lambda>c. c \<noteq> CHR '']'') 1 r1)" and
    3: "(c, r3) \<in> set (lit ''](''  r2)" and
    4: "(g2, r4) \<in> set (rep_class (\<lambda>c. c \<noteq> CHR '')'') 1 r3)" and
    5: "(d, r5) \<in> set (lit '')'' r4)"
    unfolding re_image_def by auto
  from 2 have g1: "r1 = g1 @ r2" "1 \<le> length g1" "\<forall>c\<in>set g1. c \<noteq> CHR '']''"
    by (rule rep_class_sound)+
  from 4 have g2: "r3 = g2 @ r4" "1 \<le> length g2" "\<forall>c\<in>set g2. c \<noteq> CHR '')''"
    by (rule rep_class_sound)+
  show ?thesis
  proof (rule that[of g1 g2 r5])
    show "x = ((image_ref g1 g2, (g1, g2)), r5)" using x 1 3 5 by (simp add: image_ref_def)
    show "s = image_ref g1 g2 @ r5" using 1 3 5 g1(1) g2(1) by (simp add: image_ref_def)
    show "g1 \<noteq> []" using g1(2) by auto
    show "g2 \<noteq> []" using g2(2) by auto
    show "CHR '']'' \<notin> set g1" using g1(3) by auto
    show "CHR '')'' \<notin> set g2" using g2(3) by auto
  qed
qed

lemma re_image_progress:
  assumes "((g0, g), r) \<in> set (re_image b s)"
  shows "length r < length s"
  using assms by (rule in_re_image) (simp add: image_ref_def)

lemma re_image_match:
  assumes "a \<noteq> []" "CHR '']'' \<notin> set a" "u \<noteq> []" "CHR '')'' \<notin> set u"
  shows "first (re_image b (image_ref a u @ rest)) = Some ((image_ref a u, (a, u)), rest)"
proof -
  let ?r1 = "CHR '']'' # CHR ''('' # u @ CHR '')'' # rest"
  let ?r2 = "CHR '')'' # rest"
  have rc1: "rep_class (\<lambda>c. c \<noteq> CHR '']'') (Suc 0) (a @ ?r1) =
      (a, ?r1) # map (\<lambda>k. (take k (a @ ?r1), drop k (a @ ?r1))) (rev [Suc 0 ..< length a])"
    using assms(1,2) by (intro rep_class_Cons) (auto simp: Suc_le_eq)
  have rc2: "rep_class (\<lambda>c. c \<noteq> CHR '')'') (Suc 0) (u @ ?r2) =
      (u, ?r2) # map (\<lambda>k. (take k (u @ ?r2), drop k (u @ ?r2))) (rev [Suc 0 ..< length u])"
    using assms(3,4) by (intro rep_class_Cons) (auto simp: Suc_le_eq)
  show ?thesis
    by (simp add: re_image_def image_ref_def lit_def rc1 rc2 first_append)
qed

lemma re_image_needs_bang: "\<not> prefix ''!'' s \<Longrightarrow> re_image b s = []"
  by (cases s) (simp_all add: re_image_def lit_def)

lemma re_image_empty_alt: "re_image b (''![]('' @ u @ '')'' @ rest) = []"
proof (rule ccontr)
  let ?s = "''![]('' @ u @ '')'' @ rest"
  assume "re_image b ?s \<noteq> []"
  then have "hd (re_image b ?s) \<in> set (re_image b ?s)" by (rule hd_in_set)
  then obtain g1 g2 r where s: "?s = image_ref g1 g2 @ r" and g1: "g1 \<noteq> []" "CHR '']'' \<notin> set g1"
    by (rule in_re_image)
  from s g1 show False by (cases g1) (simp_all add: image_ref_def)
qed

lemma re_image_empty_url:
  assumes "CHR '']'' \<notin> set a"
  shows "re_image b (''!['' @ a @ '']()'' @ rest) = []"
proof (rule ccontr)
  let ?s = "''!['' @ a @ '']()'' @ rest"
  assume "re_image b ?s \<noteq> []"
  then have "hd (re_image b ?s) \<in> set (re_image b ?s)" by (rule hd_in_set)
  then obtain g1 g2 r where s: "?s = image_ref g1 g2 @ r" and g1: "CHR '']'' \<notin> set g1"
    and g2: "g2 \<noteq> []" "CHR '')'' \<notin> set g2"
    by (rule in_re_image)
  from s have "a @ CHR '']'' # (''()'' @ rest) = g1 @ CHR '']'' # (''('' @ g2 @ '')'' @ r)"
    by (simp add: image_ref_def)
  from split_first[OF assms g1 this] have "CHR '')'' # rest = g2 @ CHR '')'' # r"
    by simp
  with g2 show False by (cases g2) simp_all
qed

lemma repl_unresolvable:
  assumes "\<not> resolvable u"
  shows "repl_and_download_image ev to g0 (a, u) (uids, st) = Inl AttributeError"
  using assms by (simp add: repl_and_download_image_def resolvable_def absolute_url_def)

lemma repl_raises:
  assumes "resolvable u" and "requests_get ev (fetch_url u) = None"
  shows "repl_and_download_image ev to g0 (a, u) (uids, st) = Inl RequestException"
  using assms
  by (auto simp: repl_and_download_image_def resolvable_def absolute_url_def fetch_url_def Let_def)

lemma repl_not_ok:
  assumes "resolvable u" and "requests_get ev (fetch_url u) = Some r" and "\<not> ok r"
  shows "repl_and_download_image ev to g0 (a, u) (uids, st) =
    Inr (g0, uids, logged [Echo_downloading a (fetch_url u), Http_get (fetch_url u), Secho_unable] st)"
  using assms
  by (auto simp: repl_and_download_image_def resolvable_def absolute_url_def fetch_url_def Let_def
      emit_def logged_def)

lemma repl_known:
  assumes "resolvable u" and "requests_get ev (fetch_url u) = Some r" and "ok r"
    and "map_of (downloaded_images st) (sha256_hexdigest ev (content r)) = Some f"
  shows "repl_and_download_image ev to g0 (a, u) (uids, st) =
    Inr (image_ref a f, uids, logged [Echo_downloading a (fetch_url u), Http_get (fetch_url u)] st)"
  using assms
  by (auto simp: repl_and_download_image_def resolvable_def absolute_url_def fetch_url_def Let_def
      emit_def logged_def image_ref_def)

lemma repl_new:
  assumes "resolvable u" and "requests_get ev (fetch_url u) = Some r" and "ok r"
    and "map_of (downloaded_images st) (sha256_hexdigest ev (content r)) = None"
    and "f = unique_slugify ev uids a @ ''.'' @ last (split_str (CHR ''.'') (fetch_url u))"
  shows "repl_and_download_image ev to g0 (a, u) (uids, st) =
    (if open_wb ev to f
     then Inr (image_ref a f, uids @ [unique_slugify ev uids a],
            logged [Echo_downloading a (fetch_url u), Http_get (fetch_url u), File_write to f (content r)]
              (st\<lparr>downloaded_images :=
                   AList.update (sha256_hexdigest ev (content r)) f (downloaded_images st)\<rparr>))
     else Inl OSError)"
  using assms
  by (auto simp: repl_and_download_image_def resolvable_def absolute_url_def fetch_url_def Let_def
      emit_def logged_def image_ref_def)

lemma localize_Unmatched:
  "localize_pieces ev to (map Unmatched w @ ps) us =
     (case localize_pieces ev to ps us of
        Inl e \<Rightarrow> Inl e
      | Inr (outs, us') \<Rightarrow> Inr (map (\<lambda>c. [c]) w @ outs, us'))"
  by (induction w) (auto split: sum.splits)

lemma concat_singletons [simp]: "concat (map (\<lambda>c. [c]) w) = w"
  by (induction w) simp_all

lemma re_pieces_skip:
  assumes "\<And>t. suffix t w \<Longrightarrow> t \<noteq> [] \<Longrightarrow> re False (t @ rest) = []"
    and "w \<noteq> [] \<Longrightarrow> re b (w @ rest) = []"
  shows "re_pieces re limit b (w @ rest) = map Unmatched w @ re_pieces re limit (b \<and> w = []) rest"
  using assms
proof (induction w arbitrary: b)
  case Nil
  then show ?case by simp
next
  case (Cons c w)
  have IH: "re_pieces re limit False (w @ rest) = map Unmatched w @ re_pieces re limit (False \<and> w = []) rest"
  proof (rule Cons.IH)
    fix t assume "suffix t w" "t \<noteq> []"
    then show "re False (t @ rest) = []" using Cons.prems(1) by (simp add: suffix_ConsI)
  next
    assume "w \<noteq> []"
    then show "re False (w @ rest) = []" using Cons.prems(1)[of w] by (simp add: suffix_ConsI)
  qed
  show ?case
  proof (cases "limit = Some 0")
    case True
    then show ?thesis by simp
  next
    case False
    have "re b (c # w @ rest) = []" using Cons.prems(2) by simp
    with False have "re_pieces re limit b ((c # w) @ rest) = Unmatched c # re_pieces re limit False (w @ rest)"
      by (simp add: re_pieces_nomatch)
    with IH show ?thesis by simp
  qed
qed

lemma no_bang_suffix:
  assumes "CHR ''!'' \<notin> set w" and "suffix t w" and "t \<noteq> []"
  shows "re_image b (t @ rest) = []"
proof -
  from assms(2) have "set t \<subseteq> set w" by (rule set_mono_suffix)
  with assms(1,3) have "\<not> prefix ''!'' (t @ rest)" by (cases t) auto
  then show ?thesis by (rule re_image_needs_bang)
qed

lemma image_pieces_limit [simp]: "(if re_MULTILINE = 0 then None else Some re_MULTILINE) = Some 8"
  by (simp add: re_MULTILINE_def)

lemma skip_reference:
  assumes m: "\<And>b. re_image b (CHR ''!'' # w @ rest) = []" and w: "CHR ''!'' \<notin> set w"
  shows "re_pieces re_image limit b ((CHR ''!'' # w) @ rest) =
           map Unmatched (CHR ''!'' # w) @ re_pieces re_image limit False rest"
proof -
  have "re_pieces re_image limit b ((CHR ''!'' # w) @ rest) =
      map Unmatched (CHR ''!'' # w) @ re_pieces re_image limit (b \<and> CHR ''!'' # w = []) rest"
  proof (rule re_pieces_skip)
    fix t assume t: "suffix t (CHR ''!'' # w)" "t \<noteq> []"
    then have "t = CHR ''!'' # w \<or> suffix t w" by (simp add: suffix_Cons)
    then show "re_image False (t @ rest) = []"
    proof
      assume "t = CHR ''!'' # w"
      then show ?thesis using m by simp
    next
      assume "suffix t w"
      with w show ?thesis using t(2) by (rule no_bang_suffix)
    qed
  next
    show "re_image b ((CHR ''!'' # w) @ rest) = []" using m by simp
  qed
  then show ?thesis by simp
qed

lemma world_simps [simp]:
  "requests_get (world net slug) = net"
  "sha256_hexdigest (world net slug) = (\<lambda>bytes. bytes)"
  "unique_slugify (world net slug) = slug"
  "open_wb (world net slug) = (\<lambda>dir name. True)"
  by (simp_all add: world_def)

lemma match_reference:
  assumes "a \<noteq> []" "CHR '']'' \<notin> set a" "u \<noteq> []" "CHR '')'' \<notin> set u" "limit \<noteq> Some 0"
  shows "re_pieces re_image limit b (image_ref a u @ rest) =
    Matched (image_ref a u) (a, u) # re_pieces re_image (map_option (\<lambda>n. n - 1) limit) False rest"
  using assms by (intro re_pieces_first re_image_match) (simp_all add: image_ref_def)

lemma split_str_not_Nil [simp]: "split_str c s \<noteq> []"
  by (induction s) (auto split: list.splits)

lemma registry_kept_refl [simp]: "registry_kept st st"
  by (simp add: registry_kept_def)

lemma registry_kept_trans: "registry_kept st st1 \<Longrightarrow> registry_kept st1 st2 \<Longrightarrow> registry_kept st st2"
  by (simp add: registry_kept_def)

lemma rewritten_kept: "rewritten ev st1 po \<Longrightarrow> registry_kept st1 st2 \<Longrightarrow> rewritten ev st2 po"
  unfolding rewritten_def registry_kept_def
  by (cases po; cases "fst po") (auto split: prod.splits)

lemma logged_simps [simp]:
  "downloaded_images (logged es st) = downloaded_images st"
  "effects (logged es st) = effects st @ es"
  by (simp_all add: logged_def)

lemma writes_of_logged:
  "writes_of ev d (logged es st) = writes_of ev d st @ filter (written_digest ev d) es"
  by (simp add: writes_of_def)

lemma writes_of_logged_none:
  "filter (written_digest ev d) es = [] \<Longrightarrow> writes_of ev d (logged es st) = writes_of ev d st"
  by (simp add: writes_of_logged)

lemma writes_of_registry [simp]:
  "writes_of ev d (st\<lparr>downloaded_images := al\<rparr>) = writes_of ev d st"
  by (simp add: writes_of_def)

lemma registry_ok_logged:
  assumes "registry_ok ev to st" and "\<And>d. filter (written_digest ev d) es = []"
  shows "registry_ok ev to (logged es st)"
  using assms(1) unfolding registry_ok_def by (simp add: writes_of_logged_none[OF assms(2)])

lemma registry_ok_new:
  assumes ok: "registry_ok ev to st" and new: "map_of (downloaded_images st) (sha256_hexdigest ev bytes) = None"
    and that: "\<And>d. \<not> written_digest ev d e1" "\<And>d. \<not> written_digest ev d e2"
  shows "registry_ok ev to
           (logged [e1, e2, File_write to f bytes]
              (st\<lparr>downloaded_images := AList.update (sha256_hexdigest ev bytes) f (downloaded_images st)\<rparr>))"
  unfolding registry_ok_def
proof
  fix d
  let ?h = "sha256_hexdigest ev bytes"
  let ?st = "logged [e1, e2, File_write to f bytes]
              (st\<lparr>downloaded_images := AList.update ?h f (downloaded_images st)\<rparr>)"
  have w: "writes_of ev d ?st = writes_of ev d st @ (if ?h = d then [File_write to f bytes] else [])"
    using that by (simp add: writes_of_logged)
  have m: "map_of (downloaded_images ?st) d = (if d = ?h then Some f else map_of (downloaded_images st) d)"
    by (simp add: update_conv')
  from ok have old: "map_of (downloaded_images st) d = None \<and> writes_of ev d st = [] \<or>
          (\<exists>f bytes. map_of (downloaded_images st) d = Some f \<and> sha256_hexdigest ev bytes = d \<and>
                     writes_of ev d st = [File_write to f bytes])"
    unfolding registry_ok_def by blast
  show "map_of (downloaded_images ?st) d = None \<and> writes_of ev d ?st = [] \<or>
          (\<exists>f bytes. map_of (downloaded_images ?st) d = Some f \<and> sha256_hexdigest ev bytes = d \<and>
                     writes_of ev d ?st = [File_write to f bytes])"
  proof (cases "d = ?h")
    case True
    with old new have "writes_of ev d st = []" by auto
    with True show ?thesis unfolding m w by auto
  next
    case False
    then have "?h \<noteq> d" by blast
    with False old show ?thesis unfolding m w by simp
  qed
qed

lemma registry_kept_new:
  assumes "map_of (downloaded_images st) h = None"
  shows "registry_kept st (logged es (st\<lparr>downloaded_images := AList.update h f (downloaded_images st)\<rparr>))"
  using assms by (auto simp: registry_kept_def update_conv')

lemma repl_step:
  assumes run: "repl_and_download_image ev to g0 (a, u) (uids, st) = Inr (out, uids', st1)"
    and ok: "registry_ok ev to st"
  shows "registry_ok ev to st1 \<and> registry_kept st st1 \<and> rewritten ev st1 (Matched g0 (a, u), out)"
proof (cases "resolvable u")
  case False
  with run show ?thesis by (simp add: repl_unresolvable)
next
  case res: True
  show ?thesis
  proof (cases "requests_get ev (fetch_url u)")
    case None
    with res run show ?thesis by (simp add: repl_raises)
  next
    case (Some r)
    show ?thesis
    proof (cases "ok r")
      case False
      from run have st1: "st1 = logged [Echo_downloading a (fetch_url u), Http_get (fetch_url u), Secho_unable] st"
        by (simp add: repl_not_ok[OF res Some False])
      have "registry_ok ev to st1" unfolding st1 using ok by (rule registry_ok_logged) simp
      moreover have "registry_kept st st1" by (simp add: st1 registry_kept_def)
      moreover have "rewritten ev st1 (Matched g0 (a, u), out)"
        using Some False by (auto simp: rewritten_def)
      ultimately show ?thesis by simp
    next
      case okr: True
      show ?thesis
      proof (cases "map_of (downloaded_images st) (sha256_hexdigest ev (content r))")
        case known: (Some f)
        from run have st1: "st1 = logged [Echo_downloading a (fetch_url u), Http_get (fetch_url u)] st"
          and out: "out = image_ref a f"
          by (simp_all add: repl_known[OF res Some okr known])
        have "registry_ok ev to st1" unfolding st1 using ok by (rule registry_ok_logged) simp
        moreover have "registry_kept st st1" by (simp add: st1 registry_kept_def)
        moreover have "rewritten ev st1 (Matched g0 (a, u), out)"
          using Some known by (auto simp: rewritten_def out st1)
        ultimately show ?thesis by simp
      next
        case new: None
        define f where "f = unique_slugify ev uids a @ ''.'' @ last (split_str (CHR ''.'') (fetch_url u))"
        let ?st = "logged [Echo_downloading a (fetch_url u), Http_get (fetch_url u), File_write to f (content r)]
              (st\<lparr>downloaded_images :=
                   AList.update (sha256_hexdigest ev (content r)) f (downloaded_images st)\<rparr>)"
        from run have st1: "st1 = ?st" and out: "out = image_ref a f"
          using repl_new[OF res Some okr new f_def, of to g0]
          by (simp_all split: if_splits)
        have "registry_ok ev to st1" unfolding st1 using ok new by (rule registry_ok_new) simp_all
        moreover have "registry_kept st st1" unfolding st1 using new by (rule registry_kept_new)
        moreover have "rewritten ev st1 (Matched g0 (a, u), out)"
          using Some by (auto simp: rewritten_def out st1 update_conv')
        ultimately show ?thesis by simp
      qed
    qed
  qed
qed

lemma localize_pieces_trace:
  assumes "localize_pieces ev to ps (uids, st) = Inr (outs, uids', st1)" and "registry_ok ev to st"
  shows "length outs = length ps \<and> registry_ok ev to st1 \<and> registry_kept st st1 \<and>
         list_all (rewritten ev st1) (zip ps outs)"
  using assms
proof (induction ps arbitrary: uids st outs)
  case Nil
  then show ?case by simp
next
  case (Cons p ps)
  show ?case
  proof (cases p)
    case (Unmatched c)
    with Cons.prems(1) obtain outs' where
      rest: "localize_pieces ev to ps (uids, st) = Inr (outs', uids', st1)" and outs: "outs = [c] # outs'"
      by (auto split: sum.splits)
    from Cons.IH[OF rest Cons.prems(2)] show ?thesis
      using Unmatched outs by (simp add: rewritten_def)
  next
    case (Matched g0 g)
    obtain a u where g: "g = (a, u)" by (cases g)
    from Cons.prems(1) Matched g obtain out uids2 st2 outs' where
      step: "repl_and_download_image ev to g0 (a, u) (uids, st) = Inr (out, uids2, st2)" and
      rest: "localize_pieces ev to ps (uids2, st2) = Inr (outs', uids', st1)" and
      outs: "outs = out # outs'"
      by (auto split: sum.splits)
    from repl_step[OF step Cons.prems(2)] have
      ok2: "registry_ok ev to st2" and kept2: "registry_kept st st2" and
      rw: "rewritten ev st2 (Matched g0 (a, u), out)"
      by simp_all
    from Cons.IH[OF rest ok2] have
      len: "length outs' = length ps" and ok1: "registry_ok ev to st1" and
      kept1: "registry_kept st2 st1" and all: "list_all (rewritten ev st1) (zip ps outs')"
      by simp_all
    from rw kept1 have "rewritten ev st1 (Matched g0 (a, u), out)" by (rule rewritten_kept)
    moreover from kept2 kept1 have "registry_kept st st1" by (rule registry_kept_trans)
    ultimately show ?thesis using len ok1 all Matched g outs by simp
  qed
qed

lemma run_trace_invariant:
  assumes "run_trace ev to frags st = Inr (tr, st1)" and "registry_ok ev to st"
  shows "registry_ok ev to st1 \<and> registry_kept st st1 \<and> list_all (rewritten ev st1) tr"
  using assms
proof (induction frags arbitrary: st tr)
  case Nil
  then show ?case by simp
next
  case (Cons t ts)
  from Cons.prems(1) obtain outs uids st2 tr' where
    frag: "localize_pieces ev to (image_pieces t) ([], st) = Inr (outs, uids, st2)" and
    rest: "run_trace ev to ts st2 = Inr (tr', st1)" and
    tr: "tr = zip (image_pieces t) outs @ tr'"
    by (auto split: sum.splits)
  from localize_pieces_trace[OF frag Cons.prems(2)] have
    ok2: "registry_ok ev to st2" and kept2: "registry_kept st st2" and
    all2: "list_all (rewritten ev st2) (zip (image_pieces t) outs)"
    by simp_all
  from Cons.IH[OF rest ok2] have
    ok1: "registry_ok ev to st1" and kept1: "registry_kept st2 st1" and
    all1: "list_all (rewritten ev st1) tr'"
    by simp_all
  from all2 kept1 have "list_all (rewritten ev st1) (zip (image_pieces t) outs)"
    by (auto simp: list_all_iff intro: rewritten_kept)
  moreover from kept2 kept1 have "registry_kept st st1" by (rule registry_kept_trans)
  ultimately show ?case using ok1 all1 tr by simp
qed

lemma registry_ok_init: "registry_ok ev to init_state"
  by (simp add: registry_ok_def init_state_def writes_of_def)

text \<open>
  The run with its pieces kept is the run of the function itself: the same state and the
  same error, and the texts it writes are the texts of the fragments, put together.
\<close>

lemma localize_pieces_length:
  "localize_pieces ev to ps us = Inr (outs, us') \<Longrightarrow> length outs = length ps"
proof (induction ps arbitrary: us outs)
  case Nil
  then show ?case by simp
next
  case (Cons p ps)
  then show ?case by (cases p; cases us) (fastforce split: sum.splits)+
qed

lemma run_trace_fragments:
  "run_trace ev to frags st = Inl e \<Longrightarrow> run_fragments ev to frags st = Inl e"
  "run_trace ev to frags st = Inr (tr, st') \<Longrightarrow>
     \<exists>outs. run_fragments ev to frags st = Inr (outs, st') \<and> concat outs = concat (map snd tr)"
proof (induction frags arbitrary: st tr)
  case Nil
  { case 1 then show ?case by simp }
  { case 2 then show ?case by simp }
next
  case (Cons t ts)
  { case 1
    show ?case
    proof (cases "localize_pieces ev to (image_pieces t) ([], st)")
      case (Inl e')
      with 1 show ?thesis by (simp add: download_and_replace_markdown_images_def)
    next
      case (Inr x)
      obtain outs uids st1 where x: "x = (outs, uids, st1)" by (cases x)
      with 1 Inr have "run_trace ev to ts st1 = Inl e" by (auto split: sum.splits)
      then have "run_fragments ev to ts st1 = Inl e" by (rule Cons.IH(1))
      with Inr x show ?thesis by (simp add: download_and_replace_markdown_images_def)
    qed }
  { case 2
    from 2 obtain outs uids st1 tr' where
      frag: "localize_pieces ev to (image_pieces t) ([], st) = Inr (outs, uids, st1)" and
      rest: "run_trace ev to ts st1 = Inr (tr', st')" and
      tr: "tr = zip (image_pieces t) outs @ tr'"
      by (auto split: sum.splits)
    from frag have "length outs = length (image_pieces t)" by (rule localize_pieces_length)
    then have s: "map snd (zip (image_pieces t) outs) = outs" by simp
    from Cons.IH(2)[OF rest] obtain outs' where
      "run_fragments ev to ts st1 = Inr (outs', st')" "concat outs' = concat (map snd tr')"
      by blast
    with frag show ?case
      by (simp add: download_and_replace_markdown_images_def tr s) }
qed


section \<open>The claims on the images\<close>

text \<open>
  Claim C2. The claim: a reference whose URL is neither absolute nor starts with a slash
  gives a warning, is not fetched and is left as it is, and the rest is processed. In the
  code that branch evaluates \<^verbatim>\<open>click.echos\<close>, which does not exist: the call raises
  \<^verbatim>\<open>AttributeError\<close> and the substitution ends there. The function evaluated on a fragment
  with such a reference, in any world and any state:
\<close>

theorem relative_url_raises:
  "download_and_replace_markdown_images ev ''![logo](images/logo.png)'' to st = Inl AttributeError"
proof -
  have "image_pieces ''![logo](images/logo.png)'' =
      [Matched ''![logo](images/logo.png)'' (''logo'', ''images/logo.png'')]"
    by code_simp
  moreover have "\<not> resolvable ''images/logo.png''"
    by (simp add: resolvable_def absolute_url_def)
  ultimately show ?thesis
    by (simp add: download_and_replace_markdown_images_def repl_unresolvable)
qed

text \<open>
  Claim C3. The claim: distinct images of one run whose alternative texts give the same slug
  get distinct file names, also across fragments. The slugifier is created anew in every
  call, so it knows nothing of the names given in earlier fragments: two fragments of one
  run, each with a reference of alternative text \<^verbatim>\<open>fig\<close> to a different image (here the
  content of an image is its URL), get the same file name with any slugifier, and the second
  file is written over the first.
\<close>

theorem same_slug_in_two_fragments_collides:
  "run_fragments (world (\<lambda>u. Some (Response True u)) slug) to
      [''![fig](http://h/a.png)'', ''![fig](http://h/b.png)''] init_state =
   Inr ([''![fig]('' @ slug [] ''fig'' @ ''.png)'', ''![fig]('' @ slug [] ''fig'' @ ''.png)''],
        \<lparr>downloaded_images = [(''http://h/a.png'', slug [] ''fig'' @ ''.png''),
                               (''http://h/b.png'', slug [] ''fig'' @ ''.png'')],
         effects = [Echo_downloading ''fig'' ''http://h/a.png'', Http_get ''http://h/a.png'',
                    File_write to (slug [] ''fig'' @ ''.png'') ''http://h/a.png'',
                    Echo_downloading ''fig'' ''http://h/b.png'', Http_get ''http://h/b.png'',
                    File_write to (slug [] ''fig'' @ ''.png'') ''http://h/b.png'']\<rparr>)"
proof -
  have p1: "image_pieces ''![fig](http://h/a.png)'' =
      [Matched ''![fig](http://h/a.png)'' (''fig'', ''http://h/a.png'')]" by code_simp
  have p2: "image_pieces ''![fig](http://h/b.png)'' =
      [Matched ''![fig](http://h/b.png)'' (''fig'', ''http://h/b.png'')]" by code_simp
  have e1: "last (split_str (CHR ''.'') ''http://h/a.png'') = ''png''" by code_simp
  have e2: "last (split_str (CHR ''.'') ''http://h/b.png'') = ''png''" by code_simp
  show ?thesis
    by (simp add: download_and_replace_markdown_images_def p1 p2 repl_and_download_image_def
        Let_def emit_def init_state_def e1 e2)
qed

text \<open>
  Claim C4. In a run that starts with the empty dictionary and processes any fragments, any
  two references that were matched and whose requests returned the same bytes are rewritten
  to the same file name, each with its own alternative text; the dictionary holds that name
  for the digest of the bytes, and exactly one file was written for that digest, under that
  name.
\<close>

theorem identical_bytes_same_file:
  assumes run: "run_trace ev to frags init_state = Inr (tr, st')"
    and r1: "(Matched g1 (a1, u1), o1) \<in> set tr" and r2: "(Matched g2 (a2, u2), o2) \<in> set tr"
    and f1: "requests_get ev (fetch_url u1) = Some (Response True c)"
    and f2: "requests_get ev (fetch_url u2) = Some (Response True c)"
  shows "\<exists>f bytes. o1 = image_ref a1 f \<and> o2 = image_ref a2 f \<and>
           map_of (downloaded_images st') (sha256_hexdigest ev c) = Some f \<and>
           sha256_hexdigest ev bytes = sha256_hexdigest ev c \<and>
           writes_of ev (sha256_hexdigest ev c) st' = [File_write to f bytes] \<and>
           (inj (sha256_hexdigest ev) \<longrightarrow> bytes = c)"
proof -
  from run_trace_invariant[OF run registry_ok_init] have
    ok: "registry_ok ev to st'" and all: "list_all (rewritten ev st') tr"
    by simp_all
  from all r1 have "rewritten ev st' (Matched g1 (a1, u1), o1)" by (simp add: list_all_iff)
  with f1 obtain f where o1: "o1 = image_ref a1 f"
    and reg: "map_of (downloaded_images st') (sha256_hexdigest ev c) = Some f"
    by (auto simp: rewritten_def)
  from all r2 have "rewritten ev st' (Matched g2 (a2, u2), o2)" by (simp add: list_all_iff)
  with f2 obtain f' where o2: "o2 = image_ref a2 f'"
    and reg': "map_of (downloaded_images st') (sha256_hexdigest ev c) = Some f'"
    by (auto simp: rewritten_def)
  from reg reg' have "f' = f" by simp
  moreover from ok reg obtain bytes where "sha256_hexdigest ev bytes = sha256_hexdigest ev c"
    and "writes_of ev (sha256_hexdigest ev c) st' = [File_write to f bytes]"
    unfolding registry_ok_def by (metis option.distinct(1) option.inject)
  ultimately show ?thesis using o1 o2 reg by (blast dest: injD)
qed

theorem identical_bytes_same_file_witness:
  "run_trace (world (\<lambda>u. Some (Response True ''PNG'')) plain_slug) ''out''
      [''![Earth](http://h/a.png)'', ''![Planet](/img/b.png)''] init_state =
   Inr ([(Matched ''![Earth](http://h/a.png)'' (''Earth'', ''http://h/a.png''), ''![Earth](Earth.png)''),
         (Matched ''![Planet](/img/b.png)'' (''Planet'', ''/img/b.png''), ''![Planet](Earth.png)'')],
        \<lparr>downloaded_images = [(''PNG'', ''Earth.png'')],
         effects = [Echo_downloading ''Earth'' ''http://h/a.png'', Http_get ''http://h/a.png'',
                    File_write ''out'' ''Earth.png'' ''PNG'',
                    Echo_downloading ''Planet'' ''https://zestedesavoir.com/img/b.png'',
                    Http_get ''https://zestedesavoir.com/img/b.png'']\<rparr>) \<and>
   (\<exists>f. ''![Earth](Earth.png)'' = image_ref ''Earth'' f \<and>
        ''![Planet](Earth.png)'' = image_ref ''Planet'' f \<and>
        writes_of (world (\<lambda>u. Some (Response True ''PNG'')) plain_slug) ''PNG''
          \<lparr>downloaded_images = [(''PNG'', ''Earth.png'')],
           effects = [Echo_downloading ''Earth'' ''http://h/a.png'', Http_get ''http://h/a.png'',
                      File_write ''out'' ''Earth.png'' ''PNG'',
                      Echo_downloading ''Planet'' ''https://zestedesavoir.com/img/b.png'',
                      Http_get ''https://zestedesavoir.com/img/b.png'']\<rparr> =
          [File_write ''out'' f ''PNG''])"
proof -
  let ?W = "world (\<lambda>u. Some (Response True ''PNG'')) plain_slug"
  let ?st = "\<lparr>downloaded_images = [(''PNG'', ''Earth.png'')],
         effects = [Echo_downloading ''Earth'' ''http://h/a.png'', Http_get ''http://h/a.png'',
                    File_write ''out'' ''Earth.png'' ''PNG'',
                    Echo_downloading ''Planet'' ''https://zestedesavoir.com/img/b.png'',
                    Http_get ''https://zestedesavoir.com/img/b.png'']\<rparr>"
  have run: "run_trace ?W ''out'' [''![Earth](http://h/a.png)'', ''![Planet](/img/b.png)''] init_state =
   Inr ([(Matched ''![Earth](http://h/a.png)'' (''Earth'', ''http://h/a.png''), ''![Earth](Earth.png)''),
         (Matched ''![Planet](/img/b.png)'' (''Planet'', ''/img/b.png''), ''![Planet](Earth.png)'')], ?st)"
    by code_simp
  have "\<exists>f bytes. ''![Earth](Earth.png)'' = image_ref ''Earth'' f \<and>
        ''![Planet](Earth.png)'' = image_ref ''Planet'' f \<and>
        map_of (downloaded_images ?st) (sha256_hexdigest ?W ''PNG'') = Some f \<and>
        sha256_hexdigest ?W bytes = sha256_hexdigest ?W ''PNG'' \<and>
        writes_of ?W (sha256_hexdigest ?W ''PNG'') ?st = [File_write ''out'' f bytes] \<and>
        (inj (sha256_hexdigest ?W) \<longrightarrow> bytes = ''PNG'')"
    by (rule identical_bytes_same_file[OF run]) (simp_all add: fetch_url_def absolute_url_def)
  then have "\<exists>f. ''![Earth](Earth.png)'' = image_ref ''Earth'' f \<and>
        ''![Planet](Earth.png)'' = image_ref ''Planet'' f \<and>
        writes_of ?W ''PNG'' ?st = [File_write ''out'' f ''PNG'']"
    by simp
  with run show ?thesis by blast
qed

text \<open>
  Claim C5, as stated, fails when the request raises instead of returning a response: the
  exception leaves the callback and the substitution.
\<close>

theorem network_error_raises:
  "download_and_replace_markdown_images (world (\<lambda>u. None) plain_slug)
      ''![a](http://h/a.png)'' ''out'' init_state = Inl RequestException"
  by code_simp

text \<open>
  Claim C5, amended. For a reference whose URL can be resolved and whose request returns a
  response that is not a success, the callback returns the text of the reference unchanged;
  the new state has the same dictionary and three more effects, the message, the request
  and the warning, and no file written. The substitution goes on with the text after the
  reference, from that state and with one substitution less to go, and a fragment that is the
  reference alone is returned unchanged.
\<close>

theorem failed_download_leaves_reference:
  assumes "a \<noteq> []" "CHR '']'' \<notin> set a" "u \<noteq> []" "CHR '')'' \<notin> set u"
    and "resolvable u" and "requests_get ev (fetch_url u) = Some r" and "\<not> ok r"
    and "st' = logged [Echo_downloading a (fetch_url u), Http_get (fetch_url u), Secho_unable] st"
  shows "repl_and_download_image ev to (image_ref a u) (a, u) (uids, st) = Inr (image_ref a u, uids, st') \<and>
         downloaded_images st' = downloaded_images st \<and>
         (limit \<noteq> Some 0 \<longrightarrow>
            localize_pieces ev to (re_pieces re_image limit b (image_ref a u @ rest)) (uids, st) =
              (case localize_pieces ev to
                      (re_pieces re_image (map_option (\<lambda>n. n - 1) limit) False rest) (uids, st') of
                 Inl e \<Rightarrow> Inl e
               | Inr (outs, us') \<Rightarrow> Inr (image_ref a u # outs, us'))) \<and>
         download_and_replace_markdown_images ev (image_ref a u) to st = Inr (image_ref a u, st')"
proof (intro conjI impI)
  show r: "repl_and_download_image ev to (image_ref a u) (a, u) (uids, st) = Inr (image_ref a u, uids, st')"
    for uids
    unfolding assms(8) using assms(5,6,7) by (rule repl_not_ok)
  show "downloaded_images st' = downloaded_images st"
    by (simp add: assms(8) logged_def)
  show "localize_pieces ev to (re_pieces re_image limit b (image_ref a u @ rest)) (uids, st) =
              (case localize_pieces ev to
                      (re_pieces re_image (map_option (\<lambda>n. n - 1) limit) False rest) (uids, st') of
                 Inl e \<Rightarrow> Inl e
               | Inr (outs, us') \<Rightarrow> Inr (image_ref a u # outs, us'))"
    if "limit \<noteq> Some 0"
    using match_reference[OF assms(1-4) that, of b rest] by (simp add: r)
  have "image_pieces (image_ref a u) = [Matched (image_ref a u) (a, u)]"
    using match_reference[OF assms(1-4), of "Some 8" True "[]"] by (simp add: image_pieces_def)
  then show "download_and_replace_markdown_images ev (image_ref a u) to st = Inr (image_ref a u, st')"
    by (simp add: download_and_replace_markdown_images_def r)
qed

theorem failed_download_leaves_reference_witness:
  "download_and_replace_markdown_images
      (world (\<lambda>u. Some (Response (u \<noteq> ''http://h/404.png'') ''PNG'')) plain_slug)
      ''![a](http://h/404.png)'' ''out'' init_state =
   Inr (''![a](http://h/404.png)'',
        \<lparr>downloaded_images = [],
         effects = [Echo_downloading ''a'' ''http://h/404.png'', Http_get ''http://h/404.png'',
                    Secho_unable]\<rparr>) \<and>
   localize_pieces (world (\<lambda>u. Some (Response (u \<noteq> ''http://h/404.png'') ''PNG'')) plain_slug) ''out''
      (re_pieces re_image (Some 8) True ''![a](http://h/404.png) ![b](http://h/b.png)'') ([], init_state) =
   Inr ([''![a](http://h/404.png)'', '' '', ''![b](b.png)''], [''b''],
        \<lparr>downloaded_images = [(''PNG'', ''b.png'')],
         effects = [Echo_downloading ''a'' ''http://h/404.png'', Http_get ''http://h/404.png'',
                    Secho_unable,
                    Echo_downloading ''b'' ''http://h/b.png'', Http_get ''http://h/b.png'',
                    File_write ''out'' ''b.png'' ''PNG'']\<rparr>)"
proof -
  let ?W = "world (\<lambda>u. Some (Response (u \<noteq> ''http://h/404.png'') ''PNG'')) plain_slug"
  let ?st = "\<lparr>downloaded_images = [],
         effects = [Echo_downloading ''a'' ''http://h/404.png'', Http_get ''http://h/404.png'',
                    Secho_unable]\<rparr>"
  have rest: "localize_pieces ?W ''out'' (re_pieces re_image (Some 7) False '' ![b](http://h/b.png)'') ([], ?st) =
      Inr (['' '', ''![b](b.png)''], [''b''],
        \<lparr>downloaded_images = [(''PNG'', ''b.png'')],
         effects = [Echo_downloading ''a'' ''http://h/404.png'', Http_get ''http://h/404.png'',
                    Secho_unable,
                    Echo_downloading ''b'' ''http://h/b.png'', Http_get ''http://h/b.png'',
                    File_write ''out'' ''b.png'' ''PNG'']\<rparr>)"
    by code_simp
  from failed_download_leaves_reference[of "''a''" "''http://h/404.png''" ?W
      "Response False ''PNG''" ?st init_state "''out''" "[]" "Some 8" True "'' ![b](http://h/b.png)''"]
  show ?thesis
    by (simp add: image_ref_def resolvable_def absolute_url_def fetch_url_def logged_def
        init_state_def rest)
qed

text \<open>
  Claim C8. The claim: the file name of a new image is the slug of the alternative text
  followed by the extension of the last path segment of the URL. The code takes what follows
  the last dot of the whole URL, \<^verbatim>\<open>image_url.split(".")[-1]\<close>. For the reference
  \<^verbatim>\<open>![fig](/media/image)\<close>, whose last path segment \<^verbatim>\<open>image\<close> has no dot, this is a part of
  the host name and the path: the file name is \<^verbatim>\<open>fig.com/media/image\<close>. Where that name can be
  opened the file is written under it; in a directory without subdirectories opening it
  raises and the conversion ends. For \<^verbatim>\<open>![x](http://h/a.png?v=1.2)\<close>, whose last path segment is
  \<^verbatim>\<open>a.png\<close>, the extension is taken from the query string: the file name is \<^verbatim>\<open>x.2\<close>.
\<close>

theorem extension_not_from_last_segment:
  "after_last (CHR ''/'') ''https://zestedesavoir.com/media/image'' = ''image'' \<and>
   CHR ''.'' \<notin> set ''image'' \<and>
   download_and_replace_markdown_images (world (\<lambda>u. Some (Response True ''PNG'')) plain_slug)
      ''![fig](/media/image)'' ''out'' init_state =
   Inr (''![fig](fig.com/media/image)'',
        \<lparr>downloaded_images = [(''PNG'', ''fig.com/media/image'')],
         effects = [Echo_downloading ''fig'' ''https://zestedesavoir.com/media/image'',
                    Http_get ''https://zestedesavoir.com/media/image'',
                    File_write ''out'' ''fig.com/media/image'' ''PNG'']\<rparr>) \<and>
   download_and_replace_markdown_images
      ((world (\<lambda>u. Some (Response True ''PNG'')) plain_slug)\<lparr>open_wb := flat_directory\<rparr>)
      ''![fig](/media/image)'' ''out'' init_state = Inl OSError \<and>
   download_and_replace_markdown_images (world (\<lambda>u. Some (Response True ''PNG'')) plain_slug)
      ''![x](http://h/a.png?v=1.2)'' ''out'' init_state =
   Inr (''![x](x.2)'',
        \<lparr>downloaded_images = [(''PNG'', ''x.2'')],
         effects = [Echo_downloading ''x'' ''http://h/a.png?v=1.2'',
                    Http_get ''http://h/a.png?v=1.2'',
                    File_write ''out'' ''x.2'' ''PNG'']\<rparr>)"
proof (intro conjI)
  show "after_last (CHR ''/'') ''https://zestedesavoir.com/media/image'' = ''image''"
    by code_simp
  show "CHR ''.'' \<notin> set ''image''"
    by simp
  show "download_and_replace_markdown_images (world (\<lambda>u. Some (Response True ''PNG'')) plain_slug)
      ''![fig](/media/image)'' ''out'' init_state =
   Inr (''![fig](fig.com/media/image)'',
        \<lparr>downloaded_images = [(''PNG'', ''fig.com/media/image'')],
         effects = [Echo_downloading ''fig'' ''https://zestedesavoir.com/media/image'',
                    Http_get ''https://zestedesavoir.com/media/image'',
                    File_write ''out'' ''fig.com/media/image'' ''PNG'']\<rparr>)"
    by code_simp
  show "download_and_replace_markdown_images
      ((world (\<lambda>u. Some (Response True ''PNG'')) plain_slug)\<lparr>open_wb := flat_directory\<rparr>)
      ''![fig](/media/image)'' ''out'' init_state = Inl OSError"
    by code_simp
  show "download_and_replace_markdown_images (world (\<lambda>u. Some (Response True ''PNG'')) plain_slug)
      ''![x](http://h/a.png?v=1.2)'' ''out'' init_state =
   Inr (''![x](x.2)'',
        \<lparr>downloaded_images = [(''PNG'', ''x.2'')],
         effects = [Echo_downloading ''x'' ''http://h/a.png?v=1.2'',
                    Http_get ''http://h/a.png?v=1.2'',
                    File_write ''out'' ''x.2'' ''PNG'']\<rparr>)"
    by code_simp
qed

text \<open>
  Claim C10. The image pattern does not match at a reference with an empty alternative text
  or an empty URL, whatever follows it. When the scan arrives at such a reference (and the
  reference holds no further \<^verbatim>\<open>!\<close>), it copies the reference character by character and goes
  on after it with the same count, the same slugs and the same state: no request, no file, no
  change of the dictionary. A fragment that is the reference alone is returned unchanged
  with the state unchanged.
\<close>

theorem empty_alt_or_url_never_matched:
  assumes "ref = ''![]('' @ x @ '')'' \<or> (CHR '']'' \<notin> set x \<and> ref = ''!['' @ x @ '']()'')"
  shows "re_image b (ref @ rest) = [] \<and>
         (CHR ''!'' \<notin> set x \<longrightarrow>
            localize_pieces ev to (re_pieces re_image limit b (ref @ rest)) us =
              (case localize_pieces ev to (re_pieces re_image limit False rest) us of
                 Inl e \<Rightarrow> Inl e
               | Inr (outs, us') \<Rightarrow> Inr (map (\<lambda>c. [c]) ref @ outs, us')) \<and>
            download_and_replace_markdown_images ev ref to st = Inr (ref, st))"
proof -
  have m: "re_image b' (ref @ rest') = []" for b' rest'
    using assms re_image_empty_alt[of b' x rest'] re_image_empty_url[of x b' rest'] by auto
  obtain w where ref: "ref = CHR ''!'' # w" and w: "set w \<subseteq> set x \<union> set ''[]()''"
    using assms by auto
  have skip: "re_pieces re_image limit' b' (ref @ rest') =
      map Unmatched ref @ re_pieces re_image limit' False rest'"
    if "CHR ''!'' \<notin> set x" for limit' b' rest'
  proof -
    from that w have "CHR ''!'' \<notin> set w" by auto
    moreover have "re_image b'' (CHR ''!'' # w @ rest') = []" for b''
      using m[of b'' rest'] by (simp add: ref)
    ultimately show ?thesis unfolding ref by (rule skip_reference[rotated])
  qed
  show ?thesis
  proof (intro conjI impI)
    show "re_image b (ref @ rest) = []" by (rule m)
  next
    assume "CHR ''!'' \<notin> set x"
    then have "re_pieces re_image limit b (ref @ rest) =
        map Unmatched ref @ re_pieces re_image limit False rest" by (rule skip)
    then show "localize_pieces ev to (re_pieces re_image limit b (ref @ rest)) us =
              (case localize_pieces ev to (re_pieces re_image limit False rest) us of
                 Inl e \<Rightarrow> Inl e
               | Inr (outs, us') \<Rightarrow> Inr (map (\<lambda>c. [c]) ref @ outs, us'))"
      by (simp only: localize_Unmatched)
  next
    assume "CHR ''!'' \<notin> set x"
    then have "image_pieces ref = map Unmatched ref"
      using skip[of "Some 8" True "[]"] by (simp add: image_pieces_def)
    then show "download_and_replace_markdown_images ev ref to st = Inr (ref, st)"
      using localize_Unmatched[of ev to ref "[]" "([], st)"]
      by (simp add: download_and_replace_markdown_images_def)
  qed
qed

theorem empty_alt_or_url_never_matched_witness:
  "re_image True ''![](pic.png)'' = [] \<and>
   download_and_replace_markdown_images (world (\<lambda>u. None) plain_slug) ''![](pic.png)'' ''out'' init_state =
     Inr (''![](pic.png)'', init_state) \<and>
   re_image True ''![alt]()'' = [] \<and>
   download_and_replace_markdown_images (world (\<lambda>u. None) plain_slug) ''![alt]()'' ''out'' init_state =
     Inr (''![alt]()'', init_state)"
  using
    empty_alt_or_url_never_matched[of "''![](pic.png)''" "''pic.png''" True "[]"
      "world (\<lambda>u. None) plain_slug" "''out''" None "([], init_state)" init_state]
    empty_alt_or_url_never_matched[of "''![alt]()''" "''alt''" True "[]"
      "world (\<lambda>u. None) plain_slug" "''out''" None "([], init_state)" init_state]
  by simp

end
